theory Spec2Isabelle
  imports Complex_Main "HOL-Library.Product_Lexorder" "HOL-Library.Multiset"
begin

section \<open>Python strings\<close>

text \<open>
  A Python \<open>str\<close> is modelled as a \<open>string\<close> whose characters are the code points
  0..255; \<open>length\<close> counts code points. The three string operations that \<open>app.py\<close> uses
  are the built-in \<open>str.lower\<close>, \<open>str.strip\<close> (no argument) and the substring test
  \<open>x in s\<close>, restricted to these code points.
\<close>

definition isspace :: "char \<Rightarrow> bool" where
  "isspace c =
     (let n = (of_char c :: nat)
      in (9 \<le> n \<and> n \<le> 13) \<or> (28 \<le> n \<and> n \<le> 32) \<or> n = 133 \<or> n = 160)"

definition lower_char :: "char \<Rightarrow> char" where
  "lower_char c =
     (let n = (of_char c :: nat)
      in if (65 \<le> n \<and> n \<le> 90) \<or> (192 \<le> n \<and> n \<le> 222 \<and> n \<noteq> 215)
         then char_of (n + 32) else c)"

definition lower :: "string \<Rightarrow> string" where
  "lower s = map lower_char s"

definition strip :: "string \<Rightarrow> string" where
  "strip s = rev (dropWhile isspace (rev (dropWhile isspace s)))"

fun startswith :: "string \<Rightarrow> string \<Rightarrow> bool" where
  "startswith s [] = True"
| "startswith [] (p # ps) = False"
| "startswith (c # s) (p # ps) = (c = p \<and> startswith s ps)"

text \<open>\<open>str_in x s\<close> is Python's \<open>x in s\<close> for two strings.\<close>

fun str_in :: "string \<Rightarrow> string \<Rightarrow> bool" where
  "str_in x [] = (x = [])"
| "str_in x (c # s) = (startswith (c # s) x \<or> str_in x s)"

section \<open>Python floats\<close>

text \<open>
  A Python \<open>float\<close> is an IEEE 754 binary64 number. A finite float is modelled by the
  rational number it denotes, and every float operation of the program rounds its exact
  result to the nearest binary64 number, ties to even: 53 significant bits, smallest
  exponent -1022, subnormal numbers below. Python compares an \<open>int\<close> with a \<open>float\<close> by
  value, so the integers \<open>0\<close> of the program are the rational \<open>0\<close>. No value of the
  program reaches the overflow threshold \<open>2^1024\<close> (sequence lengths are below \<open>2^63\<close>),
  so infinities are left out.
\<close>

type_synonym pyfloat = rat

fun floor_log2 :: "nat \<Rightarrow> nat" where
  "floor_log2 n = (if n < 2 then 0 else Suc (floor_log2 (n div 2)))"

declare floor_log2.simps [simp del]

definition float_exponent :: "rat \<Rightarrow> int" where
  "float_exponent x =
     (let y = \<bar>x\<bar>
      in max (- 1022)
           (if 1 \<le> y then int (floor_log2 (nat \<lfloor>y\<rfloor>))
            else - int (Suc (floor_log2 (nat (\<lceil>1 / y\<rceil> - 1))))))"

definition ulp :: "rat \<Rightarrow> rat" where
  "ulp x = 2 powi (float_exponent x - 52)"

definition round_nearest_even :: "rat \<Rightarrow> pyfloat" where
  "round_nearest_even x =
     (if x = 0 then 0
      else let u = ulp x; q = x / u; n = \<lfloor>q\<rfloor>; r = q - of_int n
           in if r < 1 / 2 then of_int n * u
              else if 1 / 2 < r then of_int (n + 1) * u
              else if even n then of_int n * u
              else of_int (n + 1) * u)"

definition float_of_nat :: "nat \<Rightarrow> pyfloat" where
  "float_of_nat n = round_nearest_even (of_nat n)"

definition fadd :: "pyfloat \<Rightarrow> pyfloat \<Rightarrow> pyfloat" where
  "fadd x y = round_nearest_even (x + y)"

definition fmul :: "pyfloat \<Rightarrow> pyfloat \<Rightarrow> pyfloat" where
  "fmul x y = round_nearest_even (x * y)"

definition fdiv :: "pyfloat \<Rightarrow> pyfloat \<Rightarrow> pyfloat" where
  "fdiv x y = round_nearest_even (x / y)"

text \<open>The float literals \<open>0.15\<close>, \<open>0.3\<close>, \<open>0.5\<close> and \<open>1.0\<close> of \<open>app.py\<close>.\<close>

definition lit_0_15 :: pyfloat where "lit_0_15 = round_nearest_even (15 / 100)"
definition lit_0_3 :: pyfloat where "lit_0_3 = round_nearest_even (3 / 10)"
definition lit_0_5 :: pyfloat where "lit_0_5 = round_nearest_even (5 / 10)"
definition lit_1_0 :: pyfloat where "lit_1_0 = round_nearest_even 1"

section \<open>The sequence matcher of the standard library\<close>

text \<open>
  Modelled from the spec: \<open>difflib.SequenceMatcher\<close> belongs to the Python standard
  library and is not among the sources of this repository. Section 4.1 of the spec
  describes its \<open>ratio\<close> as \<open>2 * M / T\<close>, with \<open>T\<close> the total length of both strings and
  \<open>M\<close> the total length of the matching blocks found by repeatedly taking the longest
  common contiguous block of the two remaining fragments and recursing on the left and
  the right remainders, and as \<open>1.0\<close> when both strings are empty. Where the spec is
  silent (which longest block is taken, and the automatic junk heuristic for a second
  sequence of 200 or more elements) the definitions follow the methods \<open>__chain_b\<close>,
  \<open>find_longest_match\<close>, \<open>get_matching_blocks\<close> and \<open>ratio\<close> of CPython's \<open>difflib\<close>,
  called as \<open>SequenceMatcher(None, a, b)\<close>: no junk predicate, \<open>autojunk\<close> on.

  The dictionary \<open>b2j\<close> is represented by its reader \<open>b2j.get(elt, [])\<close> and the dictionary
  \<open>j2len\<close> by its reader \<open>j2len.get(j, 0)\<close>: no stored list is empty and no stored length
  is zero, so a missing key and its default are the same.
\<close>

type_synonym match = "nat \<times> nat \<times> nat"

definition chain_b :: "string \<Rightarrow> char \<Rightarrow> nat list" where
  "chain_b b =
     (let b2j = fold (\<lambda>(i, elt) d. d(elt := d elt @ [i])) (enumerate 0 b) (\<lambda>elt. []);
          n = length b
      in if 200 \<le> n
         then (let ntest = n div 100 + 1
               in (\<lambda>elt. if ntest < length (b2j elt) then [] else b2j elt))
         else b2j)"

text \<open>The junk set \<open>bjunk\<close> stays empty, since the junk predicate is \<open>None\<close>.\<close>

definition isbjunk :: "char \<Rightarrow> bool" where
  "isbjunk elt = False"

text \<open>
  The inner loop \<open>for j in b2j.get(a[i], nothing)\<close> of \<open>find_longest_match\<close>, with its
  \<open>continue\<close> and its \<open>break\<close>; the state is the best block so far and \<open>newj2len\<close>.
\<close>

fun scan_js :: "(nat \<Rightarrow> nat) \<Rightarrow> nat \<Rightarrow> nat \<Rightarrow> nat \<Rightarrow> nat list \<Rightarrow>
    match \<times> (nat \<Rightarrow> nat) \<Rightarrow> match \<times> (nat \<Rightarrow> nat)" where
  "scan_js j2len i blo bhi [] st = st"
| "scan_js j2len i blo bhi (j # js) ((besti, bestj, bestsize), newj2len) =
     (if j < blo then scan_js j2len i blo bhi js ((besti, bestj, bestsize), newj2len)
      else if bhi \<le> j then ((besti, bestj, bestsize), newj2len)
      else (let k = (if j = 0 then 0 else j2len (j - 1)) + 1
            in scan_js j2len i blo bhi js
                 (if bestsize < k then (i + 1 - k, j + 1 - k, k) else (besti, bestj, bestsize),
                  newj2len(j := k))))"

text \<open>One round of the outer loop \<open>for i in range(alo, ahi)\<close>.\<close>

definition scan_row :: "string \<Rightarrow> (char \<Rightarrow> nat list) \<Rightarrow> nat \<Rightarrow> nat \<Rightarrow> nat \<Rightarrow>
    match \<times> (nat \<Rightarrow> nat) \<Rightarrow> match \<times> (nat \<Rightarrow> nat)" where
  "scan_row a b2j blo bhi i st =
     (case st of (best, j2len) \<Rightarrow> scan_js j2len i blo bhi (b2j (a ! i)) (best, (\<lambda>j. 0)))"

text \<open>
  The four \<open>while\<close> loops that extend the best block at its low and its high end, first
  over elements that are not junk (\<open>junk = False\<close>), then over junk (\<open>junk = True\<close>).
\<close>

function extend_low :: "string \<Rightarrow> string \<Rightarrow> bool \<Rightarrow> nat \<Rightarrow> nat \<Rightarrow> match \<Rightarrow> match" where
  "extend_low a b junk alo blo (besti, bestj, bestsize) =
     (if alo < besti \<and> blo < bestj \<and> isbjunk (b ! (bestj - 1)) = junk \<and>
         a ! (besti - 1) = b ! (bestj - 1)
      then extend_low a b junk alo blo (besti - 1, bestj - 1, bestsize + 1)
      else (besti, bestj, bestsize))"
  by pat_completeness auto
termination
  by (relation "measure (\<lambda>(a, b, junk, alo, blo, besti, bestj, bestsize). besti)") auto

function extend_high :: "string \<Rightarrow> string \<Rightarrow> bool \<Rightarrow> nat \<Rightarrow> nat \<Rightarrow> match \<Rightarrow> match" where
  "extend_high a b junk ahi bhi (besti, bestj, bestsize) =
     (if besti + bestsize < ahi \<and> bestj + bestsize < bhi \<and>
         isbjunk (b ! (bestj + bestsize)) = junk \<and>
         a ! (besti + bestsize) = b ! (bestj + bestsize)
      then extend_high a b junk ahi bhi (besti, bestj, bestsize + 1)
      else (besti, bestj, bestsize))"
  by pat_completeness auto
termination
  by (relation "measure (\<lambda>(a, b, junk, ahi, bhi, besti, bestj, bestsize). ahi - (besti + bestsize))")
    auto

declare extend_low.simps [simp del] extend_high.simps [simp del]

definition find_longest_match :: "string \<Rightarrow> string \<Rightarrow> nat \<Rightarrow> nat \<Rightarrow> nat \<Rightarrow> nat \<Rightarrow> match" where
  "find_longest_match a b alo ahi blo bhi =
     (let b2j = chain_b b;
          best = fst (fold (scan_row a b2j blo bhi) [alo..<ahi] ((alo, blo, 0), (\<lambda>j. 0)));
          best = extend_low a b False alo blo best;
          best = extend_high a b False ahi bhi best;
          best = extend_low a b True alo blo best;
          best = extend_high a b True ahi bhi best
      in best)"

subsection \<open>The longest block lies inside its window\<close>

text \<open>
  \<open>find_longest_match\<close> returns a block inside the window it was given: the lengths kept
  in \<open>j2len\<close> are bounded by the rows and columns scanned so far, and the four extension
  loops stop at the window's borders. The loop of \<open>get_matching_blocks\<close> terminates by
  this fact.
\<close>

definition len_ok :: "nat \<Rightarrow> nat \<Rightarrow> (nat \<Rightarrow> nat) \<Rightarrow> bool" where
  "len_ok blo n f = (\<forall>j. f j \<le> j + 1 - blo \<and> f j \<le> n)"

definition best_ok :: "nat \<Rightarrow> nat \<Rightarrow> nat \<Rightarrow> nat \<Rightarrow> match \<Rightarrow> bool" where
  "best_ok alo blo n bhi best =
     (case best of (bi, bj, bs) \<Rightarrow>
        alo \<le> bi \<and> blo \<le> bj \<and>
        (if bs = 0 then bi = alo \<and> bj = blo else bi + bs \<le> n \<and> bj + bs \<le> bhi))"

lemma scan_js_ok:
  assumes "len_ok blo (i - alo) j2len" and "alo \<le> i"
  shows "best_ok alo blo (Suc i) bhi best \<Longrightarrow> len_ok blo (Suc i - alo) nj \<Longrightarrow>
         best_ok alo blo (Suc i) bhi (fst (scan_js j2len i blo bhi js (best, nj))) \<and>
         len_ok blo (Suc i - alo) (snd (scan_js j2len i blo bhi js (best, nj)))"
proof (induction js arbitrary: best nj)
  case Nil
  then show ?case by simp
next
  case (Cons j js)
  obtain bi bj bs where best: "best = (bi, bj, bs)" by (cases best) auto
  show ?case
  proof (cases "j < blo \<or> bhi \<le> j")
    case True
    then show ?thesis using Cons best by auto
  next
    case False
    define k where "k = (if j = 0 then 0 else j2len (j - 1)) + 1"
    have kj: "k \<le> j + 1 - blo"
    proof (cases "j = 0")
      case True
      then show ?thesis using False by (simp add: k_def)
    next
      case nz: False
      have "j2len (j - 1) \<le> (j - 1) + 1 - blo"
        using assms(1) unfolding len_ok_def by blast
      then show ?thesis using nz False by (auto simp: k_def Suc_diff_le)
    qed
    have ki: "k \<le> Suc i - alo"
      using assms unfolding k_def len_ok_def
      by (auto simp: Suc_diff_le)
    have k0: "0 < k" by (simp add: k_def)
    have b': "best_ok alo blo (Suc i) bhi (if bs < k then (i + 1 - k, j + 1 - k, k) else (bi, bj, bs))"
      using Cons.prems(1) best kj ki k0 False assms(2) unfolding best_ok_def by auto
    have n': "len_ok blo (Suc i - alo) (nj(j := k))"
      using Cons.prems(2) kj ki unfolding len_ok_def by auto
    have eq: "scan_js j2len i blo bhi (j # js) (best, nj) =
        scan_js j2len i blo bhi js
          (if bs < k then (i + 1 - k, j + 1 - k, k) else (bi, bj, bs), nj(j := k))"
      using False best by (simp add: k_def Let_def)
    show ?thesis unfolding eq by (rule Cons.IH[OF b' n'])
  qed
qed

lemma fold_rows_ok:
  "alo \<le> n \<Longrightarrow>
   best_ok alo blo n bhi (fst (fold (scan_row a b2j blo bhi) [alo..<n] ((alo, blo, 0), (\<lambda>j. 0)))) \<and>
   len_ok blo (n - alo) (snd (fold (scan_row a b2j blo bhi) [alo..<n] ((alo, blo, 0), (\<lambda>j. 0))))"
proof (induction n)
  case 0
  then show ?case by (simp add: best_ok_def len_ok_def)
next
  case (Suc n)
  show ?case
  proof (cases "alo = Suc n")
    case True
    then show ?thesis by (simp add: best_ok_def len_ok_def)
  next
    case False
    then have le: "alo \<le> n" using Suc.prems by simp
    define st where "st = fold (scan_row a b2j blo bhi) [alo..<n] ((alo, blo, 0), (\<lambda>j. 0))"
    have ih: "best_ok alo blo n bhi (fst st)" "len_ok blo (n - alo) (snd st)"
      using Suc.IH[OF le] by (simp_all add: st_def)
    have b1: "best_ok alo blo (Suc n) bhi (fst st)"
      using ih(1) unfolding best_ok_def by (auto split: prod.splits)
    have z: "len_ok blo (Suc n - alo) (\<lambda>j. 0)" by (simp add: len_ok_def)
    have "fold (scan_row a b2j blo bhi) [alo..<Suc n] ((alo, blo, 0), (\<lambda>j. 0)) =
          scan_js (snd st) n blo bhi (b2j (a ! n)) (fst st, (\<lambda>j. 0))"
      using le by (simp add: st_def scan_row_def split: prod.splits)
    then show ?thesis
      using scan_js_ok[OF ih(2) le b1 z] by simp
  qed
qed

lemma extend_low_ok:
  "best_ok alo blo n bhi best \<Longrightarrow> best_ok alo blo n bhi (extend_low a b junk alo blo best)"
proof (induction a b junk alo blo best rule: extend_low.induct)
  case (1 a b junk alo blo besti bestj bestsize)
  show ?case
  proof (cases "alo < besti \<and> blo < bestj \<and> isbjunk (b ! (bestj - 1)) = junk \<and>
         a ! (besti - 1) = b ! (bestj - 1)")
    case True
    have "best_ok alo blo n bhi (besti - 1, bestj - 1, bestsize + 1)"
      using "1.prems" True unfolding best_ok_def by (auto split: if_splits)
    from "1.IH"[OF True this] show ?thesis using True by (subst extend_low.simps) simp
  next
    case False
    then show ?thesis using "1.prems" by (subst extend_low.simps) auto
  qed
qed


lemma extend_high_ok:
  "best_ok alo blo ahi bhi best \<Longrightarrow> best_ok alo blo ahi bhi (extend_high a b junk ahi bhi best)"
proof (induction a b junk ahi bhi best rule: extend_high.induct)
  case (1 a b junk ahi bhi besti bestj bestsize)
  show ?case
  proof (cases "besti + bestsize < ahi \<and> bestj + bestsize < bhi \<and>
         isbjunk (b ! (bestj + bestsize)) = junk \<and>
         a ! (besti + bestsize) = b ! (bestj + bestsize)")
    case True
    have "best_ok alo blo ahi bhi (besti, bestj, bestsize + 1)"
      using "1.prems" True unfolding best_ok_def by (auto split: if_splits)
    from "1.IH"[OF True this] show ?thesis using True by (subst extend_high.simps) simp
  next
    case False
    then show ?thesis using "1.prems" by (subst extend_high.simps) auto
  qed
qed

lemma find_longest_match_ok:
  "best_ok alo blo ahi bhi (find_longest_match a b alo ahi blo bhi)"
proof -
  define st where "st = fold (scan_row a (chain_b b) blo bhi) [alo..<ahi] ((alo, blo, 0), (\<lambda>j. 0))"
  have "best_ok alo blo ahi bhi (fst st)"
  proof (cases "alo \<le> ahi")
    case True
    then show ?thesis using fold_rows_ok[OF True] by (simp add: st_def)
  next
    case False
    then show ?thesis by (simp add: st_def best_ok_def)
  qed
  then show ?thesis
    unfolding find_longest_match_def Let_def st_def[symmetric]
    by (intro extend_high_ok extend_low_ok)
qed

lemma find_longest_match_bounds:
  assumes "find_longest_match a b alo ahi blo bhi = (i, j, k)" and "k \<noteq> 0"
  shows "alo \<le> i \<and> i + k \<le> ahi \<and> blo \<le> j \<and> j + k \<le> bhi"
  using find_longest_match_ok[of alo blo ahi bhi a b] assms by (simp add: best_ok_def)

subsection \<open>Matching blocks and the ratio\<close>

text \<open>
  The work list \<open>queue\<close> of \<open>get_matching_blocks\<close> is a Python list used as a stack
  (\<open>append\<close>, \<open>pop\<close>): the head of the model's list is the last element of the Python
  list. \<open>collapse\<close> is the loop that merges adjacent blocks, with the final
  \<open>if k1: non_adjacent.append(...)\<close>; tuples sort lexicographically.
\<close>

function blocks_loop :: "string \<Rightarrow> string \<Rightarrow> (nat \<times> nat \<times> nat \<times> nat) list \<Rightarrow> match list \<Rightarrow> match list" where
  "blocks_loop a b [] matching_blocks = matching_blocks"
| "blocks_loop a b ((alo, ahi, blo, bhi) # queue) matching_blocks =
     (case find_longest_match a b alo ahi blo bhi of
        (i, j, k) \<Rightarrow>
          if k \<noteq> 0
          then blocks_loop a b
                 ((if i + k < ahi \<and> j + k < bhi then [(i + k, ahi, j + k, bhi)] else []) @
                  (if alo < i \<and> blo < j then [(alo, i, blo, j)] else []) @ queue)
                 (matching_blocks @ [(i, j, k)])
          else blocks_loop a b queue matching_blocks)"
  by pat_completeness auto
termination
proof (relation "measure (\<lambda>(a, b, queue, matching_blocks).
    sum_list (map (\<lambda>(alo, ahi, blo, bhi). Suc ((ahi - alo) + (bhi - blo))) queue))", goal_cases)
  case 1
  show ?case by simp
next
  case (2 a b alo ahi blo bhi queue matching_blocks i y j k)
  then have "find_longest_match a b alo ahi blo bhi = (i, j, k)"
    by metis
  from find_longest_match_bounds[OF this \<open>k \<noteq> 0\<close>] \<open>k \<noteq> 0\<close>
  show ?case by auto
next
  case (3 a b alo ahi blo bhi queue matching_blocks i y j k)
  show ?case by simp
qed

declare blocks_loop.simps [simp del]

fun collapse :: "match list \<Rightarrow> match \<Rightarrow> match list \<Rightarrow> match list" where
  "collapse [] (i1, j1, k1) non_adjacent =
     (if k1 \<noteq> 0 then non_adjacent @ [(i1, j1, k1)] else non_adjacent)"
| "collapse ((i2, j2, k2) # rest) (i1, j1, k1) non_adjacent =
     (if i1 + k1 = i2 \<and> j1 + k1 = j2 then collapse rest (i1, j1, k1 + k2) non_adjacent
      else collapse rest (i2, j2, k2)
             (if k1 \<noteq> 0 then non_adjacent @ [(i1, j1, k1)] else non_adjacent))"

definition get_matching_blocks :: "string \<Rightarrow> string \<Rightarrow> match list" where
  "get_matching_blocks a b =
     (let la = length a; lb = length b;
          matching_blocks = sort (blocks_loop a b [(0, la, 0, lb)] [])
      in collapse matching_blocks (0, 0, 0) [] @ [(la, lb, 0)])"

definition calculate_ratio :: "nat \<Rightarrow> nat \<Rightarrow> pyfloat" where
  "calculate_ratio matches len =
     (if len \<noteq> 0 then fdiv (fmul 2 (float_of_nat matches)) (float_of_nat len) else lit_1_0)"

definition ratio :: "string \<Rightarrow> string \<Rightarrow> pyfloat" where
  "ratio a b =
     calculate_ratio (sum_list (map (\<lambda>(i, j, k). k) (get_matching_blocks a b)))
       (length a + length b)"

section \<open>Python values, exceptions and the outside world\<close>

text \<open>
  \<open>pyval\<close> are the objects that \<open>json.load\<close> builds, floating numbers left out: \<open>None\<close>,
  booleans, integers, strings, lists and dictionaries with string keys. A dictionary is
  the list of its items; a key is looked up with \<open>map_of\<close>. \<open>PNone\<close> is also the \<open>None\<close>
  that \<open>app.py\<close> itself returns.
\<close>

datatype pyval =
    PNone
  | PBool bool
  | PInt int
  | PStr string
  | PList "pyval list"
  | PDict "(string \<times> pyval) list"

text \<open>
  The exceptions that the operations below raise, by class: those of the methods of an
  object, and those of \<open>open\<close> and \<open>json.load\<close>. A class that is not listed stands under
  \<open>OtherException\<close> with its name.
\<close>

datatype exn =
    AttributeError
  | TypeError
  | FileNotFoundError
  | JSONDecodeError
  | UnicodeDecodeError
  | IsADirectoryError
  | PermissionError
  | RecursionError
  | OtherException string

text \<open>Truth value of an object, as \<open>not x\<close> and \<open>if x:\<close> test it.\<close>

fun truthy :: "pyval \<Rightarrow> bool" where
  "truthy PNone = False"
| "truthy (PBool b) = b"
| "truthy (PInt n) = (n \<noteq> 0)"
| "truthy (PStr s) = (s \<noteq> [])"
| "truthy (PList xs) = (xs \<noteq> [])"
| "truthy (PDict kvs) = (kvs \<noteq> [])"

text \<open>
  The elements a \<open>for\<close> loop visits: the items of a list, the keys of a dictionary, the
  characters of a string; \<open>None\<close>, a boolean and an integer are not iterable.
\<close>

fun py_iter :: "pyval \<Rightarrow> exn + pyval list" where
  "py_iter (PList xs) = Inr xs"
| "py_iter (PDict kvs) = Inr (map (\<lambda>(k, v). PStr k) kvs)"
| "py_iter (PStr s) = Inr (map (\<lambda>c. PStr [c]) s)"
| "py_iter PNone = Inl TypeError"
| "py_iter (PBool b) = Inl TypeError"
| "py_iter (PInt n) = Inl TypeError"

text \<open>\<open>x.get(key, default)\<close>: only a dictionary has the method \<open>get\<close>.\<close>

fun py_get :: "pyval \<Rightarrow> string \<Rightarrow> pyval \<Rightarrow> exn + pyval" where
  "py_get (PDict kvs) key dflt =
     Inr (case map_of kvs key of None \<Rightarrow> dflt | Some v \<Rightarrow> v)"
| "py_get x key dflt = Inl AttributeError"

text \<open>\<open>x.lower()\<close>: only a string has the method \<open>lower\<close>.\<close>

fun py_lower :: "pyval \<Rightarrow> exn + string" where
  "py_lower (PStr s) = Inr (lower s)"
| "py_lower x = Inl AttributeError"

text \<open>
  What an f-string puts for \<open>{x}\<close>: a string stands for itself; for any other object the
  interpreter's built-in \<open>format\<close> decides, which the model takes as the parameter \<open>fmt\<close>.
\<close>

fun format_field :: "(pyval \<Rightarrow> string) \<Rightarrow> pyval \<Rightarrow> string" where
  "format_field fmt (PStr s) = s"
| "format_field fmt x = fmt x"

text \<open>\<open>str(n)\<close> for the index \<open>n\<close> of an \<open>enumerate\<close>.\<close>

fun str_of_nat :: "nat \<Rightarrow> string" where
  "str_of_nat n =
     (if n < 10 then [char_of (48 + n)]
      else str_of_nat (n div 10) @ [char_of (48 + n mod 10)])"

declare str_of_nat.simps [simp del]

text \<open>
  One request to the text generation service. \<open>chat.completions.create(...)\<close> followed by
  \<open>response.choices[0].message.content\<close> either raises an exception or yields the content.
  What the service does is not decided by the program: every function that may call it
  takes the service's behaviour at that call as the parameter \<open>create\<close>.
\<close>

record request =
  model :: string
  system_content :: string
  user_content :: string
  max_tokens :: nat
  temperature :: pyfloat

datatype reply = Raises | Content pyval

type_synonym service = "request \<Rightarrow> reply"


section \<open>The agent of \<open>app.py\<close>\<close>

datatype client = OpenAI_Client

record agent =
  qa_data :: pyval
  openai_client :: "client option"


definition calculate_similarity :: "string \<Rightarrow> pyval \<Rightarrow> exn + pyfloat" where
  "calculate_similarity text1 text2 =
     (case py_lower text2 of
        Inl e \<Rightarrow> Inl e
      | Inr t2 \<Rightarrow> Inr (ratio (lower text1) t2))"

definition keywords_list :: "string list" where
  "keywords_list = [''eva'', ''cam'', ''phil'', ''eligibility'', ''claims'', ''payment'',
               ''verification'', ''processing'', ''posting'', ''agents'', ''benefits'',
               ''thoughtful'']"

text \<open>
  The list \<open>keywords\<close> is \<open>keywords_list\<close>. The loop \<open>for keyword in keywords\<close>. It runs after \<open>_calculate_similarity\<close> has returned,
  so \<open>question\<close> is a string here.
\<close>

fun keyword_loop :: "string \<Rightarrow> string \<Rightarrow> string list \<Rightarrow> pyfloat \<Rightarrow> pyfloat" where
  "keyword_loop user_question_lower question [] keyword_boost = keyword_boost"
| "keyword_loop user_question_lower question (keyword # rest) keyword_boost =
     keyword_loop user_question_lower question rest
       (if str_in keyword user_question_lower \<and> str_in keyword (lower question)
        then fadd keyword_boost lit_0_15 else keyword_boost)"

text \<open>
  The body shared by the loops of \<open>_find_best_match\<close> (lines 145 to 161) and of
  \<open>_get_relevant_context\<close> (lines 214 to 230), the same statements in both: it reads the
  two fields of an entry and computes \<open>total_score\<close>.
\<close>

definition score_entry :: "string \<Rightarrow> pyval \<Rightarrow> exn + (pyval \<times> pyval \<times> pyfloat)" where
  "score_entry user_question_lower qa =
     (case py_get qa ''question'' (PStr []) of
        Inl e \<Rightarrow> Inl e
      | Inr question \<Rightarrow>
     (case py_get qa ''answer'' (PStr []) of
        Inl e \<Rightarrow> Inl e
      | Inr answer \<Rightarrow>
     (case calculate_similarity user_question_lower question of
        Inl e \<Rightarrow> Inl e
      | Inr score \<Rightarrow>
     (case question of
        PStr q \<Rightarrow>
          Inr (question, answer,
               min (fadd score (keyword_loop user_question_lower q keywords_list 0)) lit_1_0)
      | _ \<Rightarrow> Inl AttributeError))))"

fun find_best_match_loop :: "string \<Rightarrow> pyval list \<Rightarrow> pyval \<times> pyfloat \<Rightarrow> exn + (pyval \<times> pyfloat)" where
  "find_best_match_loop user_question_lower [] (best_match, best_score) =
     Inr (best_match, best_score)"
| "find_best_match_loop user_question_lower (qa # rest) (best_match, best_score) =
     (case score_entry user_question_lower qa of
        Inl e \<Rightarrow> Inl e
      | Inr (question, answer, total_score) \<Rightarrow>
          find_best_match_loop user_question_lower rest
            (if best_score < total_score then (answer, total_score)
             else (best_match, best_score)))"

definition find_best_match :: "agent \<Rightarrow> string \<Rightarrow> pyfloat \<Rightarrow> exn + (pyval \<times> pyfloat)" where
  "find_best_match self user_question threshold =
     (if \<not> truthy (qa_data self) then Inr (PNone, 0)
      else case py_iter (qa_data self) of
        Inl e \<Rightarrow> Inl e
      | Inr entries \<Rightarrow>
     (case find_best_match_loop (lower user_question) entries (PNone, 0) of
        Inl e \<Rightarrow> Inl e
      | Inr (best_match, best_score) \<Rightarrow>
          if threshold \<le> best_score then Inr (best_match, best_score)
          else Inr (PNone, 0)))"

type_synonym scored = "pyval \<times> pyval \<times> pyfloat"

definition score_of :: "scored \<Rightarrow> pyfloat" where
  "score_of m = (case m of (question, answer, score) \<Rightarrow> score)"

fun matches_loop :: "string \<Rightarrow> pyval list \<Rightarrow> scored list \<Rightarrow> exn + scored list" where
  "matches_loop user_question_lower [] matches = Inr matches"
| "matches_loop user_question_lower (qa # rest) matches =
     (case score_entry user_question_lower qa of
        Inl e \<Rightarrow> Inl e
      | Inr (question, answer, total_score) \<Rightarrow>
          matches_loop user_question_lower rest
            (if lit_0_3 < total_score then matches @ [(question, answer, total_score)]
             else matches))"

text \<open>
  \<open>matches.sort(key=..., reverse=True)\<close>: CPython reverses the list, sorts it stably in
  ascending order of the key and reverses the result.
\<close>

definition sort_reverse :: "scored list \<Rightarrow> scored list" where
  "sort_reverse matches = rev (sort_key score_of (rev matches))"

fun format_loop :: "(pyval \<Rightarrow> string) \<Rightarrow> nat \<Rightarrow> scored list \<Rightarrow> string \<Rightarrow> string" where
  "format_loop fmt i [] context = context"
| "format_loop fmt i ((question, answer, score) # rest) context =
     format_loop fmt (i + 1) rest
       (context @ str_of_nat i @ ''. Q: '' @ format_field fmt question @ ''\<newline>   A: '' @
        format_field fmt answer @ ''\<newline>\<newline>'')"

definition get_relevant_context :: "(pyval \<Rightarrow> string) \<Rightarrow> agent \<Rightarrow> string \<Rightarrow> exn + string option" where
  "get_relevant_context fmt self user_question =
     (if \<not> truthy (qa_data self) then Inr None
      else case py_iter (qa_data self) of
        Inl e \<Rightarrow> Inl e
      | Inr entries \<Rightarrow>
     (case matches_loop (lower user_question) entries [] of
        Inl e \<Rightarrow> Inl e
      | Inr matches \<Rightarrow>
          (let top_matches = take 3 (sort_reverse matches)
           in if top_matches = [] then Inr None
              else Inr (Some (format_loop fmt 1 top_matches
                     ''Here is relevant information from our knowledge base:\<newline>\<newline>'')))))"

definition no_information_message :: string where
  "no_information_message =
     ''I apologize, but I don't have specific information about that topic. '' @
     ''I'm specialized in answering questions about Thoughtful AI's automation agents '' @
     ''(EVA, CAM, and PHIL). Could you please rephrase your question or ask about '' @
     ''our agents?''"

definition issue_message :: string where
  "issue_message =
     ''I encountered an issue processing your question. '' @
     ''Please try asking about Thoughtful AI's agents (EVA, CAM, or PHIL).''"

definition need_api_key_message :: string where
  "need_api_key_message =
     ''I apologize, but I need an OpenAI API key to provide intelligent responses. '' @
     ''Please set the OPENAI_API_KEY environment variable.''"

definition trouble_message :: string where
  "trouble_message =
     ''I'm having trouble processing your question right now. '' @
     ''Please try asking about Thoughtful AI's agents (EVA, CAM, or PHIL).''"

definition validation_message :: string where
  "validation_message = ''Please ask me a question about Thoughtful AI's agents!''"

definition lit_0_7 :: pyfloat where "lit_0_7 = round_nearest_even (7 / 10)"

definition get_fallback_response :: "service \<Rightarrow> agent \<Rightarrow> string \<Rightarrow> pyval" where
  "get_fallback_response create self user_question =
     (case openai_client self of
        None \<Rightarrow> PStr no_information_message
      | Some c \<Rightarrow>
          (case create \<lparr>model = ''gpt-3.5-turbo'',
                  system_content =
                    ''You are a helpful customer support assistant. '' @
                    ''Provide concise, friendly responses to user questions.'',
                  user_content = user_question, max_tokens = 150, temperature = lit_0_7\<rparr> of
             Content text \<Rightarrow> text
           | Raises \<Rightarrow> PStr issue_message))"

definition system_message_of :: "string option \<Rightarrow> string" where
  "system_message_of context =
     (let system_message =
            ''You are a helpful customer support AI agent for Thoughtful AI, a company that provides '' @
            ''AI-powered automation agents for healthcare processes. '' @
            ''Your role is to assist users with questions about Thoughtful AI's products and services. '' @
            ''Be friendly, professional, and concise in your responses.''
      in case context of
           None \<Rightarrow> system_message
         | Some c \<Rightarrow>
             if c = [] then system_message
             else system_message @ ''\<newline>\<newline>'' @ c @
               ''\<newline>Use the above information to answer questions about Thoughtful AI's agents. '' @
               ''If the question is about our agents (EVA, CAM, PHIL), use the provided information. '' @
               ''For other questions, provide helpful general responses.'')"

definition get_llm_response :: "service \<Rightarrow> agent \<Rightarrow> string \<Rightarrow> string option \<Rightarrow> exn + pyval" where
  "get_llm_response create self user_question context =
     (case openai_client self of
        None \<Rightarrow>
          (case find_best_match self user_question lit_0_5 of
             Inl e \<Rightarrow> Inl e
           | Inr (answer, confidence) \<Rightarrow>
               if truthy answer then Inr answer else Inr (PStr need_api_key_message))
      | Some c \<Rightarrow>
          (case create \<lparr>model = ''gpt-3.5-turbo'', system_content = system_message_of context,
                  user_content = user_question, max_tokens = 200, temperature = lit_0_7\<rparr> of
             Content text \<Rightarrow> Inr text
           | Raises \<Rightarrow>
               (case find_best_match self user_question lit_0_5 of
                  Inl e \<Rightarrow> Inl e
                | Inr (answer, confidence) \<Rightarrow>
                    if truthy answer then Inr answer else Inr (PStr trouble_message))))"

text \<open>The dictionary that \<open>get_response\<close> returns.\<close>

record response =
  answer :: pyval
  source :: string
  confidence :: pyfloat

definition get_response :: "(pyval \<Rightarrow> string) \<Rightarrow> service \<Rightarrow> agent \<Rightarrow> string \<Rightarrow> exn + response" where
  "get_response fmt create self user_question =
     (if user_question = [] \<or> strip user_question = []
      then Inr \<lparr>answer = PStr validation_message, source = ''validation'', confidence = 0\<rparr>
      else case get_relevant_context fmt self user_question of
        Inl e \<Rightarrow> Inl e
      | Inr context \<Rightarrow>
          (let is_about_agents = (context \<noteq> None)
           in case get_llm_response create self user_question context of
                Inl e \<Rightarrow> Inl e
              | Inr llm_answer \<Rightarrow>
                  Inr \<lparr>answer = llm_answer,
                       source = (if is_about_agents then ''ai_agent'' else ''ai_general''),
                       confidence = (if is_about_agents then lit_1_0 else lit_0_5)\<rparr>))"

section \<open>The knowledge store of the spec\<close>

text \<open>
  Section 3 of the spec: a store is an ordered sequence of entries, each with a string
  \<open>question\<close> and a string \<open>answer\<close>. An entry is the pair of its two fields, \<open>None\<close> for a
  field that the JSON object lacks; \<open>entry_py\<close> is the object that \<open>json.load\<close> builds for
  it and \<open>store_py\<close> the list that \<open>_load_data\<close> keeps in \<open>qa_data\<close>.
\<close>

type_synonym qa_entry = "string option \<times> string option"

definition entry_question :: "qa_entry \<Rightarrow> string" where
  "entry_question e = (case fst e of None \<Rightarrow> [] | Some q \<Rightarrow> q)"

definition entry_answer :: "qa_entry \<Rightarrow> string" where
  "entry_answer e = (case snd e of None \<Rightarrow> [] | Some a \<Rightarrow> a)"

definition entry_py :: "qa_entry \<Rightarrow> pyval" where
  "entry_py e =
     PDict ((case fst e of None \<Rightarrow> [] | Some q \<Rightarrow> [(''question'', PStr q)]) @
            (case snd e of None \<Rightarrow> [] | Some a \<Rightarrow> [(''answer'', PStr a)]))"

definition store_py :: "qa_entry list \<Rightarrow> pyval" where
  "store_py store = PList (map entry_py store)"

text \<open>A query is blank when it is empty or has whitespace only.\<close>

definition blank :: "string \<Rightarrow> bool" where
  "blank q = list_all isspace q"

section \<open>Basic facts\<close>

lemma lit_1_0_eq: "lit_1_0 = 1"
  by code_simp

lemma lit_0_5_eq: "lit_0_5 = 1 / 2"
  by code_simp

lemma lit_0_3_eq: "lit_0_3 = 5404319552844595 / 2 ^ 54"
  by code_simp

lemma lit_0_3_less_0_5: "lit_0_3 < lit_0_5"
  unfolding lit_0_3_eq lit_0_5_eq by simp

lemma dropWhile_all_iff: "list_all P (dropWhile P xs) \<longleftrightarrow> list_all P xs"
  by (induction xs) auto

lemma strip_empty_iff: "strip q = [] \<longleftrightarrow> blank q"
proof -
  have "strip q = [] \<longleftrightarrow> list_all isspace (rev (dropWhile isspace q))"
    by (simp add: strip_def dropWhile_eq_Nil_conv list_all_iff)
  also have "\<dots> \<longleftrightarrow> list_all isspace (dropWhile isspace q)"
    by (simp add: list_all_iff)
  also have "\<dots> \<longleftrightarrow> blank q"
    by (simp add: dropWhile_all_iff blank_def)
  finally show ?thesis .
qed

lemma validate_iff: "(q = [] \<or> strip q = []) \<longleftrightarrow> blank q"
  by (auto simp: strip_empty_iff blank_def)

section \<open>Validation of the query\<close>

text \<open>
  C4. For a query that is empty or consists of whitespace only, \<open>get_response\<close> returns the
  validation result, whatever the store holds (also a store on which retrieval would raise)
  and whatever the generation service would do: it returns normally, and neither retrieval
  nor the service takes part in the result.
\<close>

theorem get_response_blank:
  "blank q \<Longrightarrow>
   get_response fmt create self q =
     Inr \<lparr>answer = PStr ''Please ask me a question about Thoughtful AI's agents!'',
          source = ''validation'', confidence = 0\<rparr>"
  unfolding get_response_def validation_message_def
  by (simp only: validate_iff if_True)

theorem get_response_blank_witness:
  "blank '' \<newline> '' \<and>
   get_response (\<lambda>v. []) (\<lambda>r. Raises) \<lparr>qa_data = PInt 1, openai_client = Some OpenAI_Client\<rparr>
       '' \<newline> '' =
     Inr \<lparr>answer = PStr ''Please ask me a question about Thoughtful AI's agents!'',
          source = ''validation'', confidence = 0\<rparr>"
proof -
  have b: "blank '' \<newline> ''"
    by (simp add: blank_def isspace_def)
  show ?thesis
    using b get_response_blank [OF b, of "\<lambda>v. []" "\<lambda>r. Raises"
        "\<lparr>qa_data = PInt 1, openai_client = Some OpenAI_Client\<rparr>"]
    by simp
qed

section \<open>Calls without a generation service\<close>

text \<open>
  C8. With no generation service configured (\<open>openai_client\<close> is \<open>None\<close>) the outcome of
  \<open>get_response\<close> is a function of the store and the query alone: whatever the outside
  service would do at the first call (\<open>create1\<close>) and at the second (\<open>create2\<close>), both
  calls have the same outcome, the same answer, source and confidence.
\<close>

theorem get_response_idempotent:
  "openai_client self = None \<Longrightarrow>
   get_response fmt create1 self q = get_response fmt create2 self q"
proof -
  assume nc: "openai_client self = None"
  have "get_llm_response create1 self q ctx = get_llm_response create2 self q ctx" for ctx
    using nc by (simp add: get_llm_response_def)
  then show ?thesis
    unfolding get_response_def by (simp cong: sum.case_cong)
qed

theorem get_response_idempotent_witness:
  "openai_client \<lparr>qa_data = PList [], openai_client = None\<rparr> = None \<and>
   get_response (\<lambda>v. []) (\<lambda>r. Raises) \<lparr>qa_data = PList [], openai_client = None\<rparr> ''hi'' =
   get_response (\<lambda>v. []) (\<lambda>r. Content (PStr ''x'')) \<lparr>qa_data = PList [], openai_client = None\<rparr> ''hi''"
  using get_response_idempotent [of "\<lparr>qa_data = PList [], openai_client = None\<rparr>"
      "\<lambda>v. []" "\<lambda>r. Raises" "''hi''" "\<lambda>r. Content (PStr ''x'')"]
  by simp

section \<open>The combined score of the spec\<close>

text \<open>
  Section 4.1 of the spec, in its words: case-fold both strings and take the similarity
  ratio; add \<open>0.15\<close> for every keyword that is a substring of both the case-folded query and
  the case-folded question, summing over all such keywords; the score is the smaller of
  base plus boost and \<open>1.0\<close>.
\<close>

definition total_boost :: "string \<Rightarrow> string \<Rightarrow> pyfloat" where
  "total_boost query question =
     foldl fadd 0
       (map (\<lambda>keyword. lit_0_15)
          (filter (\<lambda>keyword. str_in keyword (lower query) \<and> str_in keyword (lower question))
             keywords_list))"

definition combined_score :: "string \<Rightarrow> string \<Rightarrow> pyfloat" where
  "combined_score query question =
     min (fadd (ratio (lower query) (lower question)) (total_boost query question)) 1"

definition entry_score :: "string \<Rightarrow> qa_entry \<Rightarrow> pyfloat" where
  "entry_score query e = combined_score query (entry_question e)"

definition scored_of :: "string \<Rightarrow> qa_entry \<Rightarrow> scored" where
  "scored_of query e = (PStr (entry_question e), PStr (entry_answer e), entry_score query e)"

subsection \<open>Rounding keeps the sign\<close>

lemma ulp_pos: "0 < ulp x"
  by (simp add: ulp_def)

lemma round_nearest_even_nonneg:
  assumes "0 \<le> x"
  shows "0 \<le> round_nearest_even x"
proof (cases "x = 0")
  case True
  then show ?thesis by (simp add: round_nearest_even_def)
next
  case False
  have q: "0 \<le> x / ulp x"
    using assms ulp_pos[of x] by simp
  then have n: "0 \<le> \<lfloor>x / ulp x\<rfloor>" by simp
  have a: "0 \<le> of_int \<lfloor>x / ulp x\<rfloor> * ulp x"
    using n ulp_pos[of x] by simp
  have b: "0 \<le> of_int (\<lfloor>x / ulp x\<rfloor> + 1) * ulp x"
    using n ulp_pos[of x] by simp
  show ?thesis
    using False a b by (simp add: round_nearest_even_def Let_def)
qed

lemma fadd_nonneg: "0 \<le> x \<Longrightarrow> 0 \<le> y \<Longrightarrow> 0 \<le> fadd x y"
  by (simp add: fadd_def round_nearest_even_nonneg)

lemma lit_0_15_nonneg: "0 \<le> lit_0_15"
  by (simp add: lit_0_15_def round_nearest_even_nonneg)

lemma ratio_nonneg: "0 \<le> ratio a b"
  by (simp add: ratio_def calculate_ratio_def fdiv_def fmul_def float_of_nat_def
      lit_1_0_eq round_nearest_even_nonneg)

lemma foldl_fadd_nonneg: "0 \<le> b \<Longrightarrow> 0 \<le> foldl fadd b (map (\<lambda>k. lit_0_15) ks)"
  by (induction ks arbitrary: b) (simp_all add: fadd_nonneg lit_0_15_nonneg)

lemma total_boost_nonneg: "0 \<le> total_boost query question"
  by (simp add: total_boost_def foldl_fadd_nonneg)

lemma combined_score_bounds: "0 \<le> combined_score query question \<and> combined_score query question \<le> 1"
  by (simp add: combined_score_def fadd_nonneg ratio_nonneg total_boost_nonneg)

subsection \<open>The loop body on an entry of the spec's store\<close>

lemma lower_char_idem: "lower_char (lower_char c) = lower_char c"
  by (auto simp: lower_char_def Let_def)

lemma lower_idem: "lower (lower s) = lower s"
  by (simp add: lower_def lower_char_idem)

lemma keyword_loop_foldl:
  "keyword_loop u q ks b =
     foldl fadd b (map (\<lambda>keyword. lit_0_15)
       (filter (\<lambda>keyword. str_in keyword u \<and> str_in keyword (lower q)) ks))"
  by (induction ks arbitrary: b) simp_all

lemma py_get_entry_question:
  "py_get (entry_py e) ''question'' (PStr []) = Inr (PStr (entry_question e))"
  by (cases e) (auto simp: entry_py_def entry_question_def split: option.splits)

lemma py_get_entry_answer:
  "py_get (entry_py e) ''answer'' (PStr []) = Inr (PStr (entry_answer e))"
  by (cases e) (auto simp: entry_py_def entry_answer_def split: option.splits)

lemma score_entry_typed:
  "score_entry (lower query) (entry_py e) = Inr (scored_of query e)"
  by (simp add: score_entry_def py_get_entry_question py_get_entry_answer
      calculate_similarity_def lower_idem keyword_loop_foldl scored_of_def entry_score_def
      combined_score_def total_boost_def lit_1_0_eq)

subsection \<open>The two loops on the spec's store\<close>

definition best_step :: "string \<Rightarrow> qa_entry \<Rightarrow> pyval \<times> pyfloat \<Rightarrow> pyval \<times> pyfloat" where
  "best_step query e st =
     (if snd st < entry_score query e then (PStr (entry_answer e), entry_score query e) else st)"

lemma find_best_match_loop_typed:
  "find_best_match_loop (lower query) (map entry_py store) st =
     Inr (fold (best_step query) store st)"
proof (induction store arbitrary: st)
  case Nil
  then show ?case by (cases st) simp
next
  case (Cons e store)
  obtain bm bs where st: "st = (bm, bs)" by (cases st)
  show ?case
    unfolding st
    by (simp add: score_entry_typed scored_of_def Cons.IH best_step_def)
qed

lemma matches_loop_typed:
  "matches_loop (lower query) (map entry_py store) acc =
     Inr (acc @ map (scored_of query) (filter (\<lambda>e. lit_0_3 < entry_score query e) store))"
proof (induction store arbitrary: acc)
  case Nil
  then show ?case by simp
next
  case (Cons e store)
  show ?case
    by (simp add: score_entry_typed scored_of_def Cons.IH)
qed

lemma fold_max_ge: "(b::rat) \<le> fold max xs b"
proof (induction xs arbitrary: b)
  case Nil
  then show ?case by simp
next
  case (Cons x xs)
  have "b \<le> max x b" by simp
  also have "\<dots> \<le> fold max xs (max x b)" by (rule Cons.IH)
  finally show ?case by simp
qed

lemma fold_max_cases: "fold max xs (b::rat) = b \<or> fold max xs b \<in> set xs"
proof (induction xs arbitrary: b)
  case Nil
  then show ?case by simp
next
  case (Cons x xs)
  from Cons.IH[of "max x b"] show ?case
    by (auto simp: max_def split: if_splits)
qed

lemma find_fold_max:
  assumes "fold max (map f store) (b::rat) \<noteq> b"
  shows "\<exists>e. find (\<lambda>e. f e = fold max (map f store) b) store = Some e"
proof -
  from fold_max_cases[of "map f store" b] assms
  obtain e where "e \<in> set store" "f e = fold max (map f store) b" by auto
  then have "find (\<lambda>e. f e = fold max (map f store) b) store \<noteq> None"
    by (auto simp: find_None_iff)
  then show ?thesis by auto
qed

lemma fold_best_step:
  "fold (best_step query) store (bm, bs) =
     (let m = fold max (map (entry_score query) store) bs
      in if m = bs then (bm, bs)
         else (case find (\<lambda>e. entry_score query e = m) store of
                 Some e \<Rightarrow> (PStr (entry_answer e), m)
               | None \<Rightarrow> (bm, bs)))"
proof (induction store arbitrary: bm bs)
  case Nil
  then show ?case by simp
next
  case (Cons e store)
  define f where "f = entry_score query"
  show ?case
  proof (cases "bs < f e")
    case True
    then have mx: "max (f e) bs = f e" by simp
    have ge: "f e \<le> fold max (map f store) (f e)" by (rule fold_max_ge)
    have "fold (best_step query) (e # store) (bm, bs) =
          fold (best_step query) store (PStr (entry_answer e), f e)"
      using True by (simp add: best_step_def f_def)
    also have "\<dots> =
      (let m = fold max (map f store) (f e)
       in if m = f e then (PStr (entry_answer e), f e)
          else (case find (\<lambda>e. f e = m) store of
                  Some e' \<Rightarrow> (PStr (entry_answer e'), m)
                | None \<Rightarrow> (PStr (entry_answer e), f e)))"
      unfolding f_def by (rule Cons.IH)
    finally show ?thesis
      using True ge mx find_fold_max[of f store "f e"] unfolding f_def[symmetric]
      by (auto simp: Let_def split: option.splits)
  next
    case False
    then have mx: "max (f e) bs = bs" by simp
    have ge: "bs \<le> fold max (map f store) bs" by (rule fold_max_ge)
    have "fold (best_step query) (e # store) (bm, bs) = fold (best_step query) store (bm, bs)"
      using False by (simp add: best_step_def f_def)
    also have "\<dots> =
      (let m = fold max (map f store) bs
       in if m = bs then (bm, bs)
          else (case find (\<lambda>e. f e = m) store of
                  Some e' \<Rightarrow> (PStr (entry_answer e'), m)
                | None \<Rightarrow> (bm, bs)))"
      unfolding f_def by (rule Cons.IH)
    finally show ?thesis
      using False ge mx find_fold_max[of f store bs] unfolding f_def[symmetric]
      by (auto simp: Let_def split: option.splits)
  qed
qed

section \<open>The best single match\<close>

text \<open>
  Section 4.2 of the spec, in its words: compute the combined score of every entry, take
  the single maximum, let the first entry that reaches it win, and return that entry's
  answer with the score if the score is at least the threshold, and \<open>(none, 0)\<close> otherwise;
  on the empty store return none.
\<close>

definition spec_find_best_match :: "qa_entry list \<Rightarrow> string \<Rightarrow> pyfloat \<Rightarrow> string option \<times> pyfloat" where
  "spec_find_best_match store query threshold =
     (if store = [] then (None, 0)
      else let best_score = Max (set (map (entry_score query) store))
           in if threshold \<le> best_score
              then (case find (\<lambda>e. entry_score query e = best_score) store of
                      Some e \<Rightarrow> (Some (entry_answer e), best_score)
                    | None \<Rightarrow> (None, 0))
              else (None, 0))"

fun opt_py :: "string option \<Rightarrow> pyval" where
  "opt_py None = PNone"
| "opt_py (Some s) = PStr s"

lemma fold_max_max: "fold max xs (max a (b::rat)) = max (fold max xs a) b"
proof (induction xs arbitrary: a)
  case Nil
  then show ?case by simp
next
  case (Cons x xs)
  have "fold max (x # xs) (max a b) = fold max xs (max (max x a) b)"
    by (simp add: max.assoc)
  also have "\<dots> = max (fold max xs (max x a)) b" by (rule Cons.IH)
  finally show ?case by simp
qed

lemma fold_max_Max:
  assumes "xs \<noteq> []"
  shows "fold max xs (b::rat) = max (Max (set xs)) b"
proof -
  obtain x xs' where xs: "xs = x # xs'" using assms by (cases xs) auto
  have "fold max xs b = fold max xs' (max x b)" by (simp add: xs)
  also have "\<dots> = max (fold max xs' x) b" by (rule fold_max_max)
  also have "fold max xs' x = Max (set xs)" unfolding xs by (rule Max.set_eq_fold[symmetric])
  finally show ?thesis .
qed

lemma entry_score_nonneg: "0 \<le> entry_score query e"
  by (simp add: entry_score_def combined_score_bounds)

lemma Max_entry_score_nonneg:
  assumes "store \<noteq> []"
  shows "0 \<le> Max (set (map (entry_score query) store))"
proof -
  obtain e where "e \<in> set store" using assms by (cases store) auto
  then have "entry_score query e \<le> Max (set (map (entry_score query) store))" by simp
  then show ?thesis using entry_score_nonneg[of query e] by linarith
qed

lemma truthy_store_py: "truthy (store_py store) \<longleftrightarrow> store \<noteq> []"
  by (simp add: store_py_def)

lemma py_iter_store_py: "py_iter (store_py store) = Inr (map entry_py store)"
  by (simp add: store_py_def)

lemma find_best_match_empty:
  "find_best_match \<lparr>qa_data = store_py [], openai_client = cl\<rparr> query threshold = Inr (PNone, 0)"
  by (simp add: find_best_match_def truthy_store_py)

lemma find_best_match_typed:
  assumes "0 < threshold"
  shows "find_best_match \<lparr>qa_data = store_py store, openai_client = cl\<rparr> query threshold =
     Inr (case spec_find_best_match store query threshold of (a, s) \<Rightarrow> (opt_py a, s))"
proof (cases "store = []")
  case True
  then show ?thesis
    by (simp add: find_best_match_empty spec_find_best_match_def)
next
  case False
  define M where "M = Max (set (map (entry_score query) store))"
  have M0: "0 \<le> M"
    unfolding M_def by (rule Max_entry_score_nonneg[OF False])
  have fm: "fold max (map (entry_score query) store) 0 = M"
    using fold_max_Max[of "map (entry_score query) store" 0] False M0 by (simp add: M_def)
  have loop: "find_best_match_loop (lower query) (map entry_py store) (PNone, 0) =
      Inr (if M = 0 then (PNone, 0)
           else (case find (\<lambda>e. entry_score query e = M) store of
                   Some e \<Rightarrow> (PStr (entry_answer e), M)
                 | None \<Rightarrow> (PNone, 0)))"
    by (simp add: find_best_match_loop_typed fold_best_step fm)
  have spec: "spec_find_best_match store query threshold =
      (if threshold \<le> M
       then (case find (\<lambda>e. entry_score query e = M) store of
               Some e \<Rightarrow> (Some (entry_answer e), M)
             | None \<Rightarrow> (None, 0))
       else (None, 0))"
    unfolding spec_find_best_match_def Let_def M_def[symmetric] using False by simp
  show ?thesis
  proof (cases "M = 0")
    case True
    then show ?thesis
      using assms False by (simp add: find_best_match_def truthy_store_py py_iter_store_py loop spec)
  next
    case nz: False
    obtain e where e: "find (\<lambda>e. entry_score query e = M) store = Some e"
      using find_fold_max[of "entry_score query" store 0] nz fm by auto
    show ?thesis
      using assms False nz
      by (simp add: find_best_match_def truthy_store_py py_iter_store_py loop spec e)
  qed
qed

text \<open>
  C1. On every store of the spec and for every query, \<open>_find_best_match\<close> with threshold
  \<open>0.5\<close> returns normally what the spec describes: the answer of the first entry that
  reaches the maximal combined score, with that score, if the score is at least \<open>0.5\<close>, and
  \<open>(None, 0)\<close> otherwise. On the empty store it returns \<open>(None, 0)\<close> for every query and
  every threshold.
\<close>

theorem find_best_match_refines_spec:
  "find_best_match \<lparr>qa_data = store_py store, openai_client = cl\<rparr> query lit_0_5 =
     Inr (case spec_find_best_match store query (1 / 2) of (a, s) \<Rightarrow> (opt_py a, s)) \<and>
   find_best_match \<lparr>qa_data = store_py [], openai_client = cl\<rparr> query threshold = Inr (PNone, 0)"
  using find_best_match_typed[of "1 / 2" store cl query] find_best_match_empty[of cl query threshold]
  by (simp add: lit_0_5_eq)

section \<open>The range of the combined score\<close>

lemma score_entry_range:
  assumes "score_entry u qa = Inr (question, ans, s)"
  shows "0 \<le> s \<and> s \<le> 1"
proof -
  from assms obtain q where
    s: "s = min (fadd (ratio (lower u) (lower q)) (keyword_loop u q keywords_list 0)) lit_1_0"
    by (auto simp: score_entry_def calculate_similarity_def
        split: sum.splits pyval.splits)
  have "0 \<le> keyword_loop u q keywords_list 0"
    unfolding keyword_loop_foldl by (rule foldl_fadd_nonneg) simp
  then show ?thesis
    unfolding s by (simp add: lit_1_0_eq fadd_nonneg ratio_nonneg)
qed

text \<open>
  C7. Whenever the loop body of the two retrieval operations computes a score for an
  entry, for any query and any object in the store, the score lies between 0 and 1; on an
  entry of the spec's store the body does compute a score, and it is the combined score
  of the spec: the smaller of ratio plus summed keyword boosts and 1.
\<close>

theorem total_score_in_unit_interval:
  "(score_entry (lower query) qa = Inr (question, ans, s) \<longrightarrow> 0 \<le> s \<and> s \<le> 1) \<and>
   score_entry (lower query) (entry_py e) =
     Inr (PStr (entry_question e), PStr (entry_answer e), combined_score query (entry_question e)) \<and>
   0 \<le> combined_score query (entry_question e) \<and> combined_score query (entry_question e) \<le> 1"
  using score_entry_range[of "lower query" qa question ans s] score_entry_typed[of query e]
    combined_score_bounds[of query "entry_question e"]
  by (simp add: scored_of_def entry_score_def)

section \<open>The ratio of a sequence with itself\<close>

subsection \<open>Rounding an integer length\<close>

lemma floor_log2_double: "0 < n \<Longrightarrow> floor_log2 (2 * n) = Suc (floor_log2 n)"
  by (subst floor_log2.simps) simp

lemma floor_log2_bounds: "0 < n \<Longrightarrow> 2 ^ floor_log2 n \<le> n \<and> n < 2 ^ Suc (floor_log2 n)"
proof (induction n rule: floor_log2.induct)
  case (1 n)
  show ?case
  proof (cases "n < 2")
    case True
    with "1.prems" have "n = 1" by simp
    then show ?thesis by (simp add: floor_log2.simps)
  next
    case False
    then have pos: "0 < n div 2" by simp
    from "1.IH"[OF False pos]
    have ih: "2 ^ floor_log2 (n div 2) \<le> n div 2" "n div 2 < 2 ^ Suc (floor_log2 (n div 2))"
      by simp_all
    have fl: "floor_log2 n = Suc (floor_log2 (n div 2))"
      using False by (subst floor_log2.simps) simp
    have lo: "2 * 2 ^ floor_log2 (n div 2) \<le> n"
      using ih(1) by linarith
    have hi: "n < 2 * 2 ^ Suc (floor_log2 (n div 2))"
      using ih(2) by linarith
    show ?thesis
      unfolding fl using lo hi by simp
  qed
qed

lemma floor_log2_unique: "2 ^ k \<le> n \<Longrightarrow> n < 2 ^ Suc k \<Longrightarrow> floor_log2 n = k"
proof (induction k arbitrary: n)
  case 0
  then have "n = 1" by simp
  then show ?case by (simp add: floor_log2.simps)
next
  case (Suc k)
  have "(2::nat) \<le> 2 ^ Suc k" by simp
  then have n2: "\<not> n < 2" using Suc.prems(1) by linarith
  have lo: "2 ^ k \<le> n div 2" using Suc.prems(1) by simp
  have hi: "n div 2 < 2 ^ Suc k" using Suc.prems(2) by simp
  have "floor_log2 n = Suc (floor_log2 (n div 2))"
    using n2 by (subst floor_log2.simps) simp
  then show ?case using Suc.IH[OF lo hi] by simp
qed

lemma float_exponent_eq:
  assumes "2 ^ E \<le> (y::rat)" and "y < 2 ^ Suc E"
  shows "float_exponent y = int E"
proof -
  have one: "(1::rat) \<le> 2 ^ E" by simp
  then have y1: "1 \<le> y" using assms(1) by linarith
  have lo: "(2::int) ^ E \<le> \<lfloor>y\<rfloor>"
    using assms(1) by (simp add: le_floor_iff)
  have hi: "\<lfloor>y\<rfloor> < (2::int) ^ Suc E"
    using assms(2) by (simp add: floor_less_iff)
  have fpos: "0 \<le> \<lfloor>y\<rfloor>" using y1 by simp
  have lo': "2 ^ E \<le> nat \<lfloor>y\<rfloor>"
    using lo fpos by (metis nat_int nat_mono of_nat_numeral of_nat_power)
  have hi': "nat \<lfloor>y\<rfloor> < 2 ^ Suc E"
    using hi fpos by (metis nat_int nat_less_iff of_nat_numeral of_nat_power)
  have "floor_log2 (nat \<lfloor>y\<rfloor>) = E"
    by (rule floor_log2_unique[OF lo' hi'])
  then show ?thesis
    using y1 by (simp add: float_exponent_def)
qed

lemma pow_split: "k + 52 = int E \<Longrightarrow> (2::rat) ^ E = 2 ^ 52 * 2 powi k"
proof -
  assume a: "k + 52 = int E"
  have "(2::rat) ^ E = 2 powi (int E)" by simp
  also have "\<dots> = 2 powi (52 + k)" using a by (simp add: add.commute)
  also have "\<dots> = 2 powi 52 * 2 powi k" by (simp add: power_int_add)
  finally show ?thesis by simp
qed

lemma round_exact:
  assumes "x \<noteq> 0" and "x / ulp x = of_int n"
  shows "round_nearest_even x = of_int n * ulp x"
  using assms(1) unfolding round_nearest_even_def Let_def assms(2)
  by simp

lemma round_scaled:
  assumes m: "2 ^ 52 \<le> (m::int)" "m \<le> 2 ^ 53" and k: "- 52 \<le> k"
  shows "round_nearest_even (of_int m * 2 powi k) = of_int m * 2 powi k"
proof -
  define E where "E = nat (k + 52)"
  have E: "k + 52 = int E" using k by (simp add: E_def)
  define u :: rat where "u = 2 powi k"
  have u0: "0 < u" by (simp add: u_def)
  define y where "y = of_int m * u"
  have ypos: "0 < y" using m(1) u0 by (simp add: y_def)
  have pE: "(2::rat) ^ E = 2 ^ 52 * u" unfolding u_def by (rule pow_split[OF E])
  show ?thesis
  proof (cases "m < 2 ^ 53")
    case True
    have lo: "2 ^ E \<le> y"
      unfolding pE y_def using m(1) u0 by (simp add: of_int_le_iff[symmetric] del: of_int_le_iff)
    have "of_int m < (2::rat) ^ 53" using True by (simp add: of_int_less_iff[symmetric] del: of_int_less_iff)
    then have hi: "y < 2 ^ Suc E"
      unfolding power_Suc pE y_def using u0 by simp
    have ex: "float_exponent y = int E" by (rule float_exponent_eq[OF lo hi])
    have ke: "int E - 52 = k" using E by simp
    have ul: "ulp y = u" by (simp add: ulp_def ex u_def ke)
    have q: "y / u = of_int m" using u0 by (simp add: y_def)
    have "round_nearest_even y = of_int m * ulp y"
      by (rule round_exact) (use ypos in \<open>simp_all add: ul q\<close>)
    then have "round_nearest_even y = y"
      unfolding ul by (simp only: y_def)
    then show ?thesis
      unfolding y_def u_def .
  next
    case False
    then have m53: "m = 2 ^ 53" using m(2) by simp
    have yE: "y = 2 ^ Suc E" unfolding power_Suc pE y_def m53 by simp
    have ex: "float_exponent y = int (Suc E)"
      by (rule float_exponent_eq) (simp_all add: yE)
    have ul: "ulp y = 2 * u"
    proof -
      have ke: "int (Suc E) - 52 = k + 1" using E by simp
      have "ulp y = 2 powi (k + 1)" by (simp only: ulp_def ex ke)
      also have "\<dots> = 2 * u" by (simp add: power_int_add u_def)
      finally show ?thesis .
    qed
    have q: "y / (2 * u) = of_int (2 ^ 52)" using u0 by (simp add: y_def m53)
    have q': "y / ulp y = of_int (2 ^ 52)" unfolding ul by (rule q)
    have y0: "y \<noteq> 0" using ypos by simp
    have "round_nearest_even y = of_int (2 ^ 52) * ulp y"
      by (rule round_exact[OF y0 q'])
    also have "\<dots> = y" unfolding ul by (simp add: y_def m53)
    finally show ?thesis
      unfolding y_def u_def .
  qed
qed

lemma round_nat_form:
  assumes "0 < N"
  shows "\<exists>m k. 2 ^ 52 \<le> (m::int) \<and> m \<le> 2 ^ 53 \<and> - 52 \<le> k \<and>
           round_nearest_even (of_nat N) = of_int m * 2 powi k"
proof -
  define E where "E = floor_log2 N"
  define k where "k = int E - 52"
  define u :: rat where "u = 2 powi k"
  have u0: "0 < u" by (simp add: u_def)
  have b: "2 ^ E \<le> N" "N < 2 ^ Suc E"
    using floor_log2_bounds[OF assms] by (simp_all add: E_def)
  have lo: "(2::rat) ^ E \<le> of_nat N"
    using b(1) by (metis of_nat_le_iff of_nat_numeral of_nat_power)
  have hi: "(of_nat N :: rat) < 2 ^ Suc E"
    using b(2) by (metis of_nat_less_iff of_nat_numeral of_nat_power)
  have ex: "float_exponent (of_nat N) = int E" by (rule float_exponent_eq[OF lo hi])
  have ul: "ulp (of_nat N) = u" by (simp add: ulp_def ex u_def k_def)
  have pE: "(2::rat) ^ E = 2 ^ 52 * u"
    unfolding u_def by (rule pow_split) (simp add: k_def)
  define q :: rat where "q = of_nat N / u"
  have qlo: "2 ^ 52 \<le> q"
    using lo u0 unfolding pE q_def by (simp add: le_divide_eq)
  have qhi: "q < 2 ^ 53"
    using hi u0 unfolding power_Suc pE q_def by (simp add: divide_less_eq)
  define n where "n = \<lfloor>q\<rfloor>"
  have nlo: "2 ^ 52 \<le> n" using qlo by (simp add: n_def le_floor_iff)
  have nhi: "n < 2 ^ 53" using qhi by (simp add: n_def floor_less_iff)
  have N0: "(of_nat N :: rat) \<noteq> 0" using assms by simp
  have "round_nearest_even (of_nat N) = of_int n * u \<or>
        round_nearest_even (of_nat N) = of_int (n + 1) * u"
    using N0 unfolding round_nearest_even_def ul Let_def q_def[symmetric] n_def[symmetric]
    by (simp del: of_nat_eq_0_iff)
  then show ?thesis
  proof
    assume "round_nearest_even (of_nat N) = of_int n * u"
    then show ?thesis using nlo nhi unfolding u_def k_def
      by (intro exI[of _ n] exI[of _ "int E - 52"]) simp
  next
    assume "round_nearest_even (of_nat N) = of_int (n + 1) * u"
    then show ?thesis using nlo nhi unfolding u_def k_def
      by (intro exI[of _ "n + 1"] exI[of _ "int E - 52"]) simp
  qed
qed

lemma round_nat_idem:
  assumes "0 < N"
  shows "round_nearest_even (round_nearest_even (of_nat N)) = round_nearest_even (of_nat N)"
proof -
  from round_nat_form[OF assms] obtain m k where
    "2 ^ 52 \<le> (m::int)" "m \<le> 2 ^ 53" "- 52 \<le> k"
    and r: "round_nearest_even (of_nat N) = of_int m * 2 powi k"
    by blast
  then show ?thesis by (simp add: round_scaled)
qed

lemma round_nat_pos:
  assumes "0 < N"
  shows "0 < round_nearest_even (of_nat N)"
proof -
  from round_nat_form[OF assms] obtain m k where
    m: "2 ^ 52 \<le> (m::int)"
    and r: "round_nearest_even (of_nat N) = of_int m * 2 powi k"
    by blast
  have "0 < m" using m by (smt (verit) zero_less_power)
  then show ?thesis unfolding r by simp
qed

lemma round_nat_double:
  assumes "0 < N"
  shows "round_nearest_even (2 * of_nat N) = 2 * round_nearest_even (of_nat N)"
proof -
  have b: "2 ^ floor_log2 N \<le> N" "N < 2 ^ Suc (floor_log2 N)"
    using floor_log2_bounds[OF assms] by simp_all
  have lo: "(2::rat) ^ floor_log2 N \<le> of_nat N"
    using b(1) by (metis of_nat_le_iff of_nat_numeral of_nat_power)
  have hi: "(of_nat N :: rat) < 2 ^ Suc (floor_log2 N)"
    using b(2) by (metis of_nat_less_iff of_nat_numeral of_nat_power)
  have e1: "float_exponent (of_nat N) = int (floor_log2 N)"
    by (rule float_exponent_eq[OF lo hi])
  have e2: "float_exponent (2 * of_nat N) = int (Suc (floor_log2 N))"
    by (rule float_exponent_eq) (use lo hi in simp_all)
  have ul: "ulp (2 * of_nat N) = 2 * ulp (of_nat N)"
  proof -
    have ke: "int (Suc (floor_log2 N)) - 52 = 1 + (int (floor_log2 N) - 52)" by simp
    have "ulp (2 * of_nat N) = 2 powi (1 + (int (floor_log2 N) - 52))"
      by (simp only: ulp_def e2 ke)
    also have "\<dots> = 2 * 2 powi (int (floor_log2 N) - 52)"
      by (subst power_int_add) simp_all
    finally show ?thesis by (simp only: ulp_def e1)
  qed
  have u0: "0 < ulp (of_nat N)" by (rule ulp_pos)
  have q: "2 * of_nat N / (2 * ulp (of_nat N)) = (of_nat N :: rat) / ulp (of_nat N)"
    by simp
  show ?thesis
    using assms unfolding round_nearest_even_def ul q Let_def
    by (simp add: algebra_simps)
qed

lemma round_one: "round_nearest_even 1 = 1"
  using lit_1_0_eq by (simp add: lit_1_0_def)

lemma calculate_ratio_self: "calculate_ratio n (n + n) = 1"
proof (cases "n = 0")
  case True
  then show ?thesis by (simp add: calculate_ratio_def lit_1_0_eq)
next
  case False
  then have pos: "0 < n" "0 < 2 * n" by simp_all
  define A where "A = round_nearest_even (of_nat n)"
  have A0: "0 < A" unfolding A_def by (rule round_nat_pos[OF pos(1)])
  have cast: "(of_nat (2 * n) :: rat) = 2 * of_nat n" by simp
  have d: "round_nearest_even (of_nat (2 * n)) = 2 * A"
    unfolding A_def cast by (rule round_nat_double[OF pos(1)])
  have "round_nearest_even (2 * A) = round_nearest_even (round_nearest_even (of_nat (2 * n)))"
    by (simp only: d)
  also have "\<dots> = 2 * A"
    unfolding round_nat_idem[OF pos(2)] by (rule d)
  finally have m: "round_nearest_even (2 * A) = 2 * A" .
  have nn: "n + n = 2 * n" by simp
  have "calculate_ratio n (n + n) =
      round_nearest_even (round_nearest_even (2 * A) / round_nearest_even (of_nat (2 * n)))"
    using False unfolding calculate_ratio_def nn fdiv_def fmul_def float_of_nat_def A_def
    by (simp only: if_True mult_eq_0_iff simp_thms) simp
  also have "\<dots> = round_nearest_even (2 * A / (2 * A))" by (simp only: m d)
  also have "\<dots> = 1" using A0 by (simp add: round_one)
  finally show ?thesis .
qed

subsection \<open>The index \<open>b2j\<close>\<close>

lemma chain_fold:
  "fold (\<lambda>(i, elt) d. d(elt := d elt @ [i])) (enumerate k xs) d c =
     d c @ filter (\<lambda>j. xs ! (j - k) = c) [k..<k + length xs]"
proof (induction xs arbitrary: k d)
  case Nil
  then show ?case by simp
next
  case (Cons x xs)
  define L where "L = [Suc k..<Suc k + length xs]"
  have f: "filter (\<lambda>j. (x # xs) ! (j - k) = c) L = filter (\<lambda>j. xs ! (j - Suc k) = c) L"
  proof (rule filter_cong[OF refl])
    fix j
    assume "j \<in> set L"
    then have "j - k = Suc (j - Suc k)" by (auto simp: L_def)
    then show "((x # xs) ! (j - k) = c) = (xs ! (j - Suc k) = c)" by simp
  qed
  have u: "[k..<k + length (x # xs)] = k # L"
    unfolding L_def by (subst upt_rec) simp
  have "fold (\<lambda>(i, elt) d. d(elt := d elt @ [i])) (enumerate k (x # xs)) d c =
        fold (\<lambda>(i, elt) d. d(elt := d elt @ [i])) (enumerate (Suc k) xs) (d(x := d x @ [k])) c"
    by simp
  also have "\<dots> = (d(x := d x @ [k])) c @ filter (\<lambda>j. xs ! (j - Suc k) = c) L"
    unfolding L_def by (rule Cons.IH)
  also have "\<dots> = d c @ filter (\<lambda>j. (x # xs) ! (j - k) = c) (k # L)"
    unfolding f[symmetric] by simp
  finally show ?case unfolding u .
qed

definition indices :: "string \<Rightarrow> char \<Rightarrow> nat list" where
  "indices b c = filter (\<lambda>j. b ! j = c) [0..<length b]"

lemma chain_b_indices:
  "chain_b b c =
     (if 200 \<le> length b \<and> length b div 100 + 1 < length (indices b c) then []
      else indices b c)"
  by (simp add: chain_b_def Let_def chain_fold indices_def)

lemma chain_b_mem: "j \<in> set (chain_b b c) \<Longrightarrow> j < length b \<and> b ! j = c"
  by (auto simp: chain_b_indices indices_def split: if_splits)

lemma chain_b_sorted: "sorted (chain_b b c)"
proof -
  have "sorted (indices b c)"
    unfolding indices_def by (rule sorted_wrt_filter) simp
  then show ?thesis by (simp add: chain_b_indices)
qed

lemma chain_b_complete:
  "chain_b b c \<noteq> [] \<Longrightarrow> j < length b \<Longrightarrow> b ! j = c \<Longrightarrow> j \<in> set (chain_b b c)"
  by (auto simp: chain_b_indices indices_def split: if_splits)

subsection \<open>Runs of indexed elements on the diagonal\<close>

text \<open>
  \<open>run s i j\<close> is the length that the scan of \<open>s\<close> against itself stores in \<open>j2len\<close> at
  row \<open>i\<close> and column \<open>j\<close>: the length of the block of indexed elements that ends at \<open>i\<close> in
  the first and at \<open>j\<close> in the second sequence.
\<close>

primrec run :: "string \<Rightarrow> nat \<Rightarrow> nat \<Rightarrow> nat" where
  "run s 0 j = (if j < length s \<and> s ! j = s ! 0 \<and> chain_b s (s ! 0) \<noteq> [] then 1 else 0)"
| "run s (Suc i) j =
     (if j < length s \<and> s ! j = s ! Suc i \<and> chain_b s (s ! Suc i) \<noteq> []
      then (if j = 0 then 0 else run s i (j - 1)) + 1 else 0)"

definition prev_row :: "string \<Rightarrow> nat \<Rightarrow> nat \<Rightarrow> nat" where
  "prev_row s i = (case i of 0 \<Rightarrow> (\<lambda>j. 0) | Suc i' \<Rightarrow> run s i')"

lemma run_step:
  assumes "j \<in> set (chain_b s (s ! i))"
  shows "(if j = 0 then 0 else prev_row s i (j - 1)) + 1 = run s i j"
proof -
  from chain_b_mem[OF assms] have j: "j < length s" "s ! j = s ! i" by simp_all
  from assms have ne: "chain_b s (s ! i) \<noteq> []" by auto
  show ?thesis
    using j ne by (cases i) (simp_all add: prev_row_def)
qed

lemma run_zero:
  assumes "i < length s" and "j \<notin> set (chain_b s (s ! i))"
  shows "run s i j = 0"
proof (cases "chain_b s (s ! i) = []")
  case True
  then show ?thesis by (cases i) simp_all
next
  case False
  from chain_b_complete[OF False, of j] assms(2)
  have "\<not> (j < length s \<and> s ! j = s ! i)" by auto
  then show ?thesis by (cases i) auto
qed

lemma run_diag_pos:
  "i < length s \<Longrightarrow> chain_b s (s ! i) \<noteq> [] \<Longrightarrow> 0 < run s i i"
  by (cases i) simp_all

lemma run_le_row: "i < length s \<Longrightarrow> run s i j \<le> run s i i"
proof (induction i arbitrary: j)
  case 0
  then show ?case by simp
next
  case (Suc i)
  have i: "i < length s" using Suc.prems by simp
  show ?case
  proof (cases "j < length s \<and> s ! j = s ! Suc i \<and> chain_b s (s ! Suc i) \<noteq> []")
    case True
    have "(if j = 0 then 0 else run s i (j - 1)) \<le> run s i i"
      using Suc.IH[OF i, of "j - 1"] by simp
    then show ?thesis using True Suc.prems by simp
  next
    case False
    then show ?thesis by auto
  qed
qed

lemma run_le_col: "i < length s \<Longrightarrow> run s i j \<le> run s j j"
proof (induction i arbitrary: j)
  case 0
  show ?case
  proof (cases "j < length s \<and> s ! j = s ! 0 \<and> chain_b s (s ! 0) \<noteq> []")
    case True
    then have "0 < run s j j" using run_diag_pos[of j s] by simp
    then show ?thesis using True by simp
  next
    case False
    then show ?thesis by auto
  qed
next
  case (Suc i)
  have i: "i < length s" using Suc.prems by simp
  show ?case
  proof (cases "j < length s \<and> s ! j = s ! Suc i \<and> chain_b s (s ! Suc i) \<noteq> []")
    case True
    then have ne: "chain_b s (s ! j) \<noteq> []" by simp
    show ?thesis
    proof (cases j)
      case 0
      then show ?thesis using True ne by simp
    next
      case (Suc j')
      have "run s i j' \<le> run s j' j'" by (rule Suc.IH[OF i])
      then show ?thesis using True ne Suc by simp
    qed
  next
    case False
    then show ?thesis by auto
  qed
qed

subsection \<open>The scan of a sequence against itself stays on the diagonal\<close>

lemma scan_js_self:
  assumes "i < length s" and "sorted js" and "set js \<subseteq> set (chain_b s (s ! i))"
    and "\<forall>i'<i. run s i' i' \<le> bs"
    and "i \<in> set js \<or> run s i i \<le> bs"
    and "\<forall>j. j \<notin> set js \<longrightarrow> nj j = run s i j"
  shows "\<exists>b k. scan_js (prev_row s i) i 0 (length s) js ((bi, bi, bs), nj) = ((b, b, k), run s i) \<and>
           (\<forall>i'\<le>i. run s i' i' \<le> k)"
  using assms(2-)
proof (induction js arbitrary: bi bs nj)
  case Nil
  have "nj = run s i" using Nil.prems(5) by auto
  moreover have "\<forall>i'\<le>i. run s i' i' \<le> bs"
    using Nil.prems(3,4) by (auto simp: le_less)
  ultimately show ?case by simp
next
  case (Cons j js)
  have jm: "j \<in> set (chain_b s (s ! i))" using Cons.prems(2) by simp
  from chain_b_mem[OF jm] have jn: "j < length s" by simp
  define k where "k = (if j = 0 then 0 else prev_row s i (j - 1)) + 1"
  have k: "k = run s i j" unfolding k_def by (rule run_step[OF jm])
  have eq: "scan_js (prev_row s i) i 0 (length s) (j # js) ((bi, bi, bs), nj) =
      scan_js (prev_row s i) i 0 (length s) js
        (if bs < k then (i + 1 - k, j + 1 - k, k) else (bi, bi, bs), nj(j := k))"
    using jn by (simp add: k_def Let_def)
  have diag: "bs < k \<Longrightarrow> j = i"
  proof (rule ccontr)
    assume lt: "bs < k" and ne: "j \<noteq> i"
    show False
    proof (cases "j < i")
      case True
      have "k \<le> run s j j" unfolding k by (rule run_le_col[OF assms(1)])
      also have "\<dots> \<le> bs" using Cons.prems(3) True by simp
      finally show False using lt by simp
    next
      case False
      then have gt: "i < j" using ne by simp
      have "i \<notin> set (j # js)"
        using Cons.prems(1) gt by auto
      then have "run s i i \<le> bs" using Cons.prems(4) by simp
      moreover have "k \<le> run s i i" unfolding k by (rule run_le_row[OF assms(1)])
      ultimately show False using lt by simp
    qed
  qed
  have srt: "sorted js" using Cons.prems(1) by simp
  have sub: "set js \<subseteq> set (chain_b s (s ! i))" using Cons.prems(2) by simp
  have nj': "\<forall>j'. j' \<notin> set js \<longrightarrow> (nj(j := k)) j' = run s i j'"
    using Cons.prems(5) k by auto
  show ?case
  proof (cases "bs < k")
    case True
    then have ji: "j = i" by (rule diag)
    have g: "\<forall>i'<i. run s i' i' \<le> k" using Cons.prems(3) True by fastforce
    have h: "i \<in> set js \<or> run s i i \<le> k" using k ji by simp
    have st: "(if bs < k then (i + 1 - k, j + 1 - k, k) else (bi, bi, bs)) =
        (i + 1 - k, i + 1 - k, k)"
      using True ji by simp
    show ?thesis unfolding eq st by (rule Cons.IH[OF srt sub g h nj'])
  next
    case False
    have h: "i \<in> set js \<or> run s i i \<le> bs"
      using Cons.prems(4) False k by auto
    have st: "(if bs < k then (i + 1 - k, j + 1 - k, k) else (bi, bi, bs)) = (bi, bi, bs)"
      using False by simp
    show ?thesis unfolding eq st by (rule Cons.IH[OF srt sub Cons.prems(3) h nj'])
  qed
qed

lemma fold_rows_self:
  "m \<le> length s \<Longrightarrow>
   \<exists>b k. fold (scan_row s (chain_b s) 0 (length s)) [0..<m] ((0, 0, 0), (\<lambda>j. 0)) =
            ((b, b, k), prev_row s m) \<and> (\<forall>i'<m. run s i' i' \<le> k)"
proof (induction m)
  case 0
  then show ?case by (simp add: prev_row_def)
next
  case (Suc m)
  then have m: "m < length s" by simp
  from Suc.IH obtain b k where
    st: "fold (scan_row s (chain_b s) 0 (length s)) [0..<m] ((0, 0, 0), (\<lambda>j. 0)) =
           ((b, b, k), prev_row s m)"
    and g: "\<forall>i'<m. run s i' i' \<le> k"
    using m by auto
  have h: "m \<in> set (chain_b s (s ! m)) \<or> run s m m \<le> k"
  proof (cases "chain_b s (s ! m) = []")
    case True
    then have "run s m m = 0" using run_zero[OF m, of m] by simp
    then show ?thesis by simp
  next
    case False
    then show ?thesis using chain_b_complete[OF False m] by simp
  qed
  have z: "\<forall>j. j \<notin> set (chain_b s (s ! m)) \<longrightarrow> (\<lambda>j. 0) j = run s m j"
    using run_zero[OF m] by simp
  from scan_js_self[OF m chain_b_sorted subset_refl g h z, of b]
  obtain b' k' where
    r: "scan_js (prev_row s m) m 0 (length s) (chain_b s (s ! m)) ((b, b, k), (\<lambda>j. 0)) =
          ((b', b', k'), run s m)"
    and g': "\<forall>i'\<le>m. run s i' i' \<le> k'"
    by blast
  have "fold (scan_row s (chain_b s) 0 (length s)) [0..<Suc m] ((0, 0, 0), (\<lambda>j. 0)) =
        scan_js (prev_row s m) m 0 (length s) (chain_b s (s ! m)) ((b, b, k), (\<lambda>j. 0))"
    by (simp add: st scan_row_def)
  also have "\<dots> = ((b', b', k'), run s m)" by (rule r)
  also have "run s m = prev_row s (Suc m)" by (simp add: prev_row_def)
  finally show ?case using g' by (auto simp: less_Suc_eq_le)
qed

subsection \<open>The extension loops on the diagonal\<close>

lemma extend_low_self: "extend_low s s False 0 0 (b, b, k) = (0, 0, k + b)"
proof (induction b arbitrary: k)
  case 0
  then show ?case by (subst extend_low.simps) simp
next
  case (Suc b)
  have "extend_low s s False 0 0 (Suc b, Suc b, k) = extend_low s s False 0 0 (b, b, k + 1)"
    by (subst extend_low.simps) (simp add: isbjunk_def)
  then show ?case by (simp add: Suc.IH)
qed

lemma extend_high_self: "k \<le> n \<Longrightarrow> extend_high s s False n n (0, 0, k) = (0, 0, n)"
proof (induction "n - k" arbitrary: k)
  case 0
  then show ?case by (subst extend_high.simps) simp
next
  case (Suc d)
  then have lt: "k < n" by simp
  have d: "d = n - (k + 1)" using Suc.hyps(2) by simp
  have "extend_high s s False n n (0, 0, k) = extend_high s s False n n (0, 0, k + 1)"
    using lt by (subst extend_high.simps) (simp add: isbjunk_def)
  also have "\<dots> = (0, 0, n)" using Suc.hyps(1)[OF d] lt by simp
  finally show ?case .
qed

lemma extend_low_junk_self: "extend_low s s True 0 0 (0, 0, k) = (0, 0, k)"
  by (subst extend_low.simps) simp

lemma extend_high_junk_self: "extend_high s s True n n (0, 0, n) = (0, 0, n)"
  by (subst extend_high.simps) simp

lemma find_longest_match_self:
  "find_longest_match s s 0 (length s) 0 (length s) = (0, 0, length s)"
proof -
  from fold_rows_self[of "length s" s] obtain b k where
    st: "fold (scan_row s (chain_b s) 0 (length s)) [0..<length s] ((0, 0, 0), (\<lambda>j. 0)) =
           ((b, b, k), prev_row s (length s))"
    by auto
  have "best_ok 0 0 (length s) (length s) (b, b, k)"
    using fold_rows_ok[of 0 "length s" 0 "length s" s "chain_b s"] by (simp add: st)
  then have le: "k + b \<le> length s"
    by (auto simp: best_ok_def split: if_splits)
  show ?thesis
    unfolding find_longest_match_def Let_def st fst_conv
    by (simp add: extend_low_self extend_high_self[OF le] extend_low_junk_self
        extend_high_junk_self)
qed

lemma get_matching_blocks_self:
  "get_matching_blocks s s =
     (if s = [] then [(0, 0, 0)] else [(0, 0, length s), (length s, length s, 0)])"
proof (cases "s = []")
  case True
  have "blocks_loop [] [] [(0, 0, 0, 0)] [] = []"
    using find_longest_match_self[of "[]"]
    by (simp add: blocks_loop.simps)
  then show ?thesis using True by (simp add: get_matching_blocks_def Let_def)
next
  case False
  have "blocks_loop s s [(0, length s, 0, length s)] [] = [(0, 0, length s)]"
    using False by (simp add: blocks_loop.simps find_longest_match_self)
  then show ?thesis using False by (simp add: get_matching_blocks_def Let_def)
qed

lemma ratio_self: "ratio s s = 1"
proof -
  have "sum_list (map (\<lambda>(i, j, k). k) (get_matching_blocks s s)) = length s"
    by (simp add: get_matching_blocks_self)
  then show ?thesis
    by (simp add: ratio_def calculate_ratio_self)
qed

text \<open>
  C6. The base similarity of any string with itself, as \<open>_calculate_similarity\<close> computes it
  (both arguments lower-cased, then the ratio of the sequence matcher), is \<open>1.0\<close>. This
  rests on the model of the library's matcher given above.
\<close>

theorem calculate_similarity_self:
  "calculate_similarity q (PStr q) = Inr 1"
  by (simp add: calculate_similarity_def ratio_self)

section \<open>The context for the generation service\<close>

text \<open>
  Section 4.2 of the spec, in its words: compute the combined score of every entry; keep
  those with a score above \<open>0.3\<close>; sort them by descending score, entries of equal score in
  their original order; take the first three. Return none if nothing is left, and
  otherwise the entries formatted as blocks \<open>N. Q: question / A: answer\<close>, numbered from 1.
  Sorting by descending score is the library's stable \<open>sort_key\<close> on the negated score.
\<close>

definition spec_relevant_matches :: "qa_entry list \<Rightarrow> string \<Rightarrow> qa_entry list" where
  "spec_relevant_matches store query =
     take 3 (sort_key (\<lambda>e. - entry_score query e)
               (filter (\<lambda>e. lit_0_3 < entry_score query e) store))"

definition context_block :: "nat \<Rightarrow> qa_entry \<Rightarrow> string" where
  "context_block n e =
     str_of_nat n @ ''. Q: '' @ entry_question e @ ''\<newline>   A: '' @ entry_answer e @
     ''\<newline>\<newline>''"

definition spec_relevant_context :: "qa_entry list \<Rightarrow> string \<Rightarrow> string option" where
  "spec_relevant_context store query =
     (let top = spec_relevant_matches store query
      in if top = [] then None
         else Some (''Here is relevant information from our knowledge base:\<newline>\<newline>'' @
                concat (map (\<lambda>(n, e). context_block n e) (zip [1..<Suc (length top)] top))))"

subsection \<open>Sorting in reverse\<close>

lemma insort_key_map_commute:
  "insort_key f (h x) (map h xs) = map h (insort_key (\<lambda>a. f (h a)) x xs)"
  by (induction xs) auto

lemma sort_key_map_commute: "sort_key f (map h xs) = map h (sort_key (\<lambda>a. f (h a)) xs)"
  by (induction xs) (simp_all add: insort_key_map_commute)

lemma rev_sort_key_rev:
  fixes f :: "'a \<Rightarrow> rat"
  shows "rev (sort_key f (rev xs)) = sort_key (\<lambda>x. - f x) xs"
proof (rule properties_for_sort_key[symmetric])
  show "mset (rev (sort_key f (rev xs))) = mset xs" by simp
next
  fix k
  have "filter (\<lambda>x. f x = f k) (rev (sort_key f (rev xs))) =
        rev (filter (\<lambda>x. f x = f k) (sort_key f (rev xs)))"
    by (simp add: rev_filter)
  also have "\<dots> = rev (filter (\<lambda>x. f x = f k) (rev xs))"
    by (simp only: sort_key_stable)
  also have "\<dots> = filter (\<lambda>x. f x = f k) xs"
    by (simp add: rev_filter)
  finally have e: "filter (\<lambda>x. f x = f k) (rev (sort_key f (rev xs))) = filter (\<lambda>x. f x = f k) xs" .
  have c: "(\<lambda>x. - f k = - f x) = (\<lambda>x. f x = f k)" by auto
  show "filter (\<lambda>x. - f k = - f x) (rev (sort_key f (rev xs))) = filter (\<lambda>x. - f k = - f x) xs"
    unfolding c by (rule e)
next
  have "sorted_wrt (\<lambda>x y. f x \<le> f y) (sort_key f (rev xs))"
    using sorted_sort_key[of f "rev xs"] by (simp add: sorted_wrt_map)
  then have "sorted_wrt (\<lambda>x y. - f x \<le> - f y) (rev (sort_key f (rev xs)))"
    by (simp add: sorted_wrt_rev)
  then show "sorted (map (\<lambda>x. - f x) (rev (sort_key f (rev xs))))"
    by (simp only: sorted_wrt_map)
qed

lemma sort_reverse_typed:
  "sort_reverse (map (scored_of query) es) =
     map (scored_of query) (sort_key (\<lambda>e. - entry_score query e) es)"
proof -
  have c: "(\<lambda>a. score_of (scored_of query a)) = entry_score query"
    by (auto simp: score_of_def scored_of_def)
  have "sort_reverse (map (scored_of query) es) =
        rev (sort_key score_of (map (scored_of query) (rev es)))"
    by (simp only: sort_reverse_def rev_map)
  also have "\<dots> = rev (map (scored_of query) (sort_key (entry_score query) (rev es)))"
    by (simp only: sort_key_map_commute c)
  also have "\<dots> = map (scored_of query) (rev (sort_key (entry_score query) (rev es)))"
    by (simp add: rev_map)
  finally show ?thesis by (simp only: rev_sort_key_rev)
qed

subsection \<open>Formatting\<close>

lemma format_loop_typed:
  "format_loop fmt i (map (scored_of query) es) ctx =
     ctx @ concat (map (\<lambda>(n, e). context_block n e) (zip [i..<i + length es] es))"
proof (induction es arbitrary: i ctx)
  case Nil
  then show ?case by simp
next
  case (Cons e es)
  have u: "[i..<i + length (e # es)] = i # [Suc i..<Suc i + length es]"
    by (subst upt_rec) simp
  have "format_loop fmt i (map (scored_of query) (e # es)) ctx =
        format_loop fmt (Suc i) (map (scored_of query) es) (ctx @ context_block i e)"
    by (simp add: scored_of_def context_block_def)
  also have "\<dots> = (ctx @ context_block i e) @
        concat (map (\<lambda>(n, e). context_block n e) (zip [Suc i..<Suc i + length es] es))"
    by (rule Cons.IH)
  finally show ?case unfolding u by simp
qed

lemma get_relevant_context_typed:
  "get_relevant_context fmt \<lparr>qa_data = store_py store, openai_client = cl\<rparr> query =
     Inr (spec_relevant_context store query)"
proof (cases "store = []")
  case True
  then show ?thesis
    by (simp add: get_relevant_context_def truthy_store_py spec_relevant_context_def
        spec_relevant_matches_def)
next
  case False
  define kept where "kept = filter (\<lambda>e. lit_0_3 < entry_score query e) store"
  define top where "top = take 3 (sort_key (\<lambda>e. - entry_score query e) kept)"
  have m: "matches_loop (lower query) (map entry_py store) [] = Inr (map (scored_of query) kept)"
    by (simp add: matches_loop_typed kept_def)
  have t: "take 3 (sort_reverse (map (scored_of query) kept)) = map (scored_of query) top"
    by (simp add: sort_reverse_typed take_map top_def)
  have s: "spec_relevant_matches store query = top"
    by (simp add: spec_relevant_matches_def top_def kept_def)
  have f: "format_loop fmt 1 (map (scored_of query) top)
             ''Here is relevant information from our knowledge base:\<newline>\<newline>'' =
           ''Here is relevant information from our knowledge base:\<newline>\<newline>'' @
           concat (map (\<lambda>(n, e). context_block n e) (zip [1..<Suc (length top)] top))"
    using format_loop_typed[of fmt 1 query top] by simp
  show ?thesis
    using False
    unfolding get_relevant_context_def spec_relevant_context_def Let_def s
    by (simp add: truthy_store_py py_iter_store_py m t f del: One_nat_def)
qed

lemma spec_relevant_context_None:
  "spec_relevant_context store query = None \<longleftrightarrow>
     (\<forall>e\<in>set store. \<not> lit_0_3 < entry_score query e)"
proof -
  have "spec_relevant_matches store query = [] \<longleftrightarrow>
        filter (\<lambda>e. lit_0_3 < entry_score query e) store = []"
    unfolding spec_relevant_matches_def
    by (metis length_0_conv length_sort take_eq_Nil zero_neq_numeral)
  then show ?thesis
    by (auto simp: spec_relevant_context_def Let_def filter_empty_conv)
qed

text \<open>
  C2. On every store of the spec and for every query, \<open>_get_relevant_context\<close> returns
  normally the context of the spec: of the entries that score above \<open>0.3\<close>, stably sorted
  by descending score, the first three, formatted as numbered blocks from 1. The result
  has at most three entries, in descending order of score, entries of equal score in the
  order of the store, and it is \<open>None\<close> exactly when no entry scores above \<open>0.3\<close>.
\<close>

theorem get_relevant_context_refines_spec:
  "get_relevant_context fmt \<lparr>qa_data = store_py store, openai_client = cl\<rparr> query =
     Inr (spec_relevant_context store query) \<and>
   length (spec_relevant_matches store query) \<le> 3 \<and>
   sorted_wrt (\<lambda>x y. entry_score query y \<le> entry_score query x)
     (spec_relevant_matches store query) \<and>
   (\<forall>k. filter (\<lambda>e. entry_score query e = k)
          (sort_key (\<lambda>e. - entry_score query e)
             (filter (\<lambda>e. lit_0_3 < entry_score query e) store)) =
        filter (\<lambda>e. entry_score query e = k)
          (filter (\<lambda>e. lit_0_3 < entry_score query e) store)) \<and>
   (spec_relevant_context store query = None \<longleftrightarrow>
      (\<forall>e\<in>set store. \<not> lit_0_3 < entry_score query e))"
proof -
  define kept where "kept = filter (\<lambda>e. lit_0_3 < entry_score query e) store"
  have srt: "sorted_wrt (\<lambda>x y. - entry_score query x \<le> - entry_score query y)
      (sort_key (\<lambda>e. - entry_score query e) kept)"
    using sorted_sort_key[of "\<lambda>e. - entry_score query e" kept] by (simp only: sorted_wrt_map)
  have "sorted_wrt (\<lambda>x y. - entry_score query x \<le> - entry_score query y)
      (take 3 (sort_key (\<lambda>e. - entry_score query e) kept))"
    by (rule sorted_wrt_take[OF srt])
  then have a: "sorted_wrt (\<lambda>x y. entry_score query y \<le> entry_score query x)
      (spec_relevant_matches store query)"
    by (simp add: spec_relevant_matches_def kept_def)
  have b: "filter (\<lambda>e. entry_score query e = k) (sort_key (\<lambda>e. - entry_score query e) kept) =
           filter (\<lambda>e. entry_score query e = k) kept" for k
  proof -
    have c: "(\<lambda>e. entry_score query e = k) = (\<lambda>e. - entry_score query e = - k)" by auto
    show ?thesis unfolding c by (rule sort_key_stable)
  qed
  show ?thesis
    using a b
    by (simp add: get_relevant_context_typed spec_relevant_context_None kept_def
        spec_relevant_matches_def)
qed

section \<open>A store with one entry\<close>

text \<open>
  The first scenario of section 8 of the spec: the store holds the question
  \<open>What does EVA do?\<close> and the query is the same string.
\<close>

definition eva_entry :: qa_entry where
  "eva_entry = (Some ''What does EVA do?'', Some ''EVA is our Eligibility Verification Agent'')"

lemma eva_fields:
  "entry_question eva_entry = ''What does EVA do?''"
  "entry_answer eva_entry = ''EVA is our Eligibility Verification Agent''"
  by (simp_all add: eva_entry_def entry_question_def entry_answer_def)

lemma eva_boost: "total_boost ''What does EVA do?'' ''What does EVA do?'' = lit_0_15"
  by code_simp

lemma capped_sum: "min (fadd 1 lit_0_15) 1 = 1"
  by code_simp

lemma eva_combined: "combined_score ''What does EVA do?'' ''What does EVA do?'' = 1"
  by (simp add: combined_score_def ratio_self eva_boost capped_sum)

lemma eva_score: "entry_score ''What does EVA do?'' eva_entry = 1"
  by (simp add: entry_score_def eva_fields eva_combined)

lemma eva_kept: "filter (\<lambda>e. lit_0_3 < entry_score ''What does EVA do?'' e) [eva_entry] = [eva_entry]"
  by (simp add: eva_score lit_0_3_eq)

lemma eva_matches: "spec_relevant_matches [eva_entry] ''What does EVA do?'' = [eva_entry]"
  unfolding spec_relevant_matches_def eva_kept by simp

lemma str_of_nat_one: "str_of_nat (Suc 0) = ''1''"
  by code_simp

lemma eva_context:
  "spec_relevant_context [eva_entry] ''What does EVA do?'' =
     Some (''Here is relevant information from our knowledge base:\<newline>\<newline>'' @
           ''1. Q: What does EVA do?\<newline>   A: EVA is our Eligibility Verification Agent\<newline>\<newline>'')"
  unfolding spec_relevant_context_def eva_matches Let_def
  by (simp add: context_block_def eva_fields str_of_nat_one)

lemma eva_best:
  "spec_find_best_match [eva_entry] ''What does EVA do?'' (1 / 2) =
     (Some ''EVA is our Eligibility Verification Agent'', 1)"
  by (simp add: spec_find_best_match_def eva_score eva_fields)

theorem get_relevant_context_refines_spec_witness:
  "get_relevant_context (\<lambda>v. []) \<lparr>qa_data = store_py [eva_entry], openai_client = None\<rparr>
       ''What does EVA do?'' =
     Inr (Some (''Here is relevant information from our knowledge base:\<newline>\<newline>'' @
           ''1. Q: What does EVA do?\<newline>   A: EVA is our Eligibility Verification Agent\<newline>\<newline>'')) \<and>
   length (spec_relevant_matches [eva_entry] ''What does EVA do?'') \<le> 3 \<and>
   spec_relevant_context [eva_entry] ''What does EVA do?'' \<noteq> None \<and>
   lit_0_3 < entry_score ''What does EVA do?'' eva_entry"
  using get_relevant_context_refines_spec [of "\<lambda>v. []" "[eva_entry]" None "''What does EVA do?''"]
  by (simp add: eva_context eva_score lit_0_3_eq)

theorem total_score_in_unit_interval_witness:
  "score_entry (lower ''What does EVA do?'') (entry_py eva_entry) =
     Inr (PStr ''What does EVA do?'', PStr ''EVA is our Eligibility Verification Agent'', 1) \<and>
   (0::rat) \<le> 1 \<and> (1::rat) \<le> 1"
proof -
  have s: "score_entry (lower ''What does EVA do?'') (entry_py eva_entry) =
      Inr (PStr ''What does EVA do?'', PStr ''EVA is our Eligibility Verification Agent'', 1)"
    using eva_score by (simp add: score_entry_typed scored_of_def eva_fields)
  show ?thesis
    using s total_score_in_unit_interval [of "''What does EVA do?''" "entry_py eva_entry"
        "PStr ''What does EVA do?''" "PStr ''EVA is our Eligibility Verification Agent''" 1
        eva_entry]
    by (simp add: eva_fields eva_combined)
qed

section \<open>Provenance of a response\<close>

lemma get_llm_response_returns:
  "\<exists>a. get_llm_response create \<lparr>qa_data = store_py store, openai_client = cl\<rparr> query ctx = Inr a"
proof -
  have fb: "find_best_match \<lparr>qa_data = store_py store, openai_client = cl\<rparr> query lit_0_5 =
      Inr (case spec_find_best_match store query (1 / 2) of (a, s) \<Rightarrow> (opt_py a, s))"
    using find_best_match_typed[of "1 / 2" store cl query] by (simp add: lit_0_5_eq)
  show ?thesis
    unfolding get_llm_response_def fb
    by (auto split: option.splits reply.splits prod.splits)
qed

lemma get_response_shape:
  assumes "\<not> blank query"
    and "get_relevant_context fmt self query = Inr ctx"
    and "get_llm_response create self query ctx = Inr a"
  shows "get_response fmt create self query =
     Inr \<lparr>answer = a,
          source = (if ctx = None then ''ai_general'' else ''ai_agent''),
          confidence = (if ctx = None then 1 / 2 else 1)\<rparr>"
  using assms
  by (simp add: get_response_def validate_iff lit_1_0_eq lit_0_5_eq)

text \<open>
  C3. For a query that is not blank, on every store of the spec, \<open>get_response\<close> returns a
  result whose source and confidence are \<open>ai_agent\<close> and \<open>1.0\<close> when
  \<open>_get_relevant_context\<close> returned a context, and \<open>ai_general\<close> and \<open>0.5\<close> when it returned
  \<open>None\<close>. The context is a function of the store and the query, so source and confidence
  are the same whether a client is configured or not (\<open>cl\<close>) and whatever the service does
  (\<open>create\<close>), also when it raises and the answer of the knowledge store is substituted.
\<close>

theorem get_response_classification:
  assumes "\<not> blank query"
  shows "get_relevant_context fmt \<lparr>qa_data = store_py store, openai_client = cl\<rparr> query =
           Inr (spec_relevant_context store query) \<and>
         (\<exists>a. get_response fmt create \<lparr>qa_data = store_py store, openai_client = cl\<rparr> query =
            Inr \<lparr>answer = a,
                 source = (if spec_relevant_context store query = None then ''ai_general''
                           else ''ai_agent''),
                 confidence = (if spec_relevant_context store query = None then 1 / 2 else 1)\<rparr>)"
proof -
  from get_llm_response_returns[of create store cl query "spec_relevant_context store query"]
  obtain a where
    a: "get_llm_response create \<lparr>qa_data = store_py store, openai_client = cl\<rparr> query
          (spec_relevant_context store query) = Inr a"
    by blast
  from get_response_shape[OF assms get_relevant_context_typed a]
  show ?thesis by (auto simp: get_relevant_context_typed)
qed

lemma eva_not_blank: "\<not> blank ''What does EVA do?''"
  by (simp add: blank_def isspace_def)

theorem get_response_classification_witness:
  "\<not> blank ''What does EVA do?'' \<and>
   (\<exists>a. get_response (\<lambda>v. []) (\<lambda>r. Raises)
          \<lparr>qa_data = store_py [eva_entry], openai_client = Some OpenAI_Client\<rparr>
          ''What does EVA do?'' =
        Inr \<lparr>answer = a, source = ''ai_agent'', confidence = 1\<rparr>)"
  using eva_not_blank
    get_response_classification [OF eva_not_blank, of "\<lambda>v. []" "[eva_entry]"
      "Some OpenAI_Client" "\<lambda>r. Raises"]
  by (simp add: eva_context)

section \<open>The composer without a generation service\<close>

lemma messages_distinct:
  "need_api_key_message \<noteq> trouble_message \<and>
   need_api_key_message \<noteq> no_information_message \<and>
   trouble_message \<noteq> no_information_message"
  by (simp add: need_api_key_message_def trouble_message_def no_information_message_def)

lemma get_llm_response_no_client:
  "get_llm_response create \<lparr>qa_data = store_py store, openai_client = None\<rparr> query ctx =
     Inr (PStr (case spec_find_best_match store query (1 / 2) of
                  (Some a, s) \<Rightarrow> if a = [] then need_api_key_message else a
                | (None, s) \<Rightarrow> need_api_key_message))"
proof -
  have fb: "find_best_match \<lparr>qa_data = store_py store, openai_client = None\<rparr> query lit_0_5 =
      Inr (case spec_find_best_match store query (1 / 2) of (a, s) \<Rightarrow> (opt_py a, s))"
    using find_best_match_typed[of "1 / 2" store None query] by (simp add: lit_0_5_eq)
  show ?thesis
    unfolding get_llm_response_def fb
    by (auto split: option.splits prod.splits)
qed

text \<open>
  C5, as the code has it. With no generation service configured, on every store of the
  spec, \<open>_get_llm_response\<close> returns the answer of the best match at threshold \<open>0.5\<close>
  verbatim when there is one and it is not the empty string; when nothing matches, and
  also when the best match has an empty or a missing answer, it returns the fixed message
  that asks for an API key. That message, the message after a service error and the
  message for a topic without information are three different strings.
\<close>

theorem llm_response_without_service:
  "get_llm_response create \<lparr>qa_data = store_py store, openai_client = None\<rparr> query ctx =
     Inr (PStr (case spec_find_best_match store query (1 / 2) of
                  (Some a, s) \<Rightarrow> if a = [] then need_api_key_message else a
                | (None, s) \<Rightarrow> need_api_key_message)) \<and>
   need_api_key_message \<noteq> trouble_message \<and>
   need_api_key_message \<noteq> no_information_message \<and>
   trouble_message \<noteq> no_information_message"
  using get_llm_response_no_client[of create store query ctx] messages_distinct
  by simp

text \<open>
  The claim as the spec states it fails where the best match has an empty answer: the
  match is found, with score 1, and the composer returns the message about the API key
  instead of the answer.
\<close>

definition eva_no_answer :: qa_entry where
  "eva_no_answer = (Some ''What does EVA do?'', Some [])"

lemma eva_no_answer_best:
  "spec_find_best_match [eva_no_answer] ''What does EVA do?'' (1 / 2) = (Some [], 1)"
  by (simp add: spec_find_best_match_def entry_score_def eva_no_answer_def entry_question_def
      entry_answer_def eva_combined)

theorem llm_response_empty_answer_counterexample:
  "find_best_match \<lparr>qa_data = store_py [eva_no_answer], openai_client = None\<rparr>
       ''What does EVA do?'' lit_0_5 = Inr (PStr [], 1) \<and>
   PStr [] \<noteq> PNone \<and>
   get_llm_response (\<lambda>r. Raises) \<lparr>qa_data = store_py [eva_no_answer], openai_client = None\<rparr>
       ''What does EVA do?'' None \<noteq> Inr (PStr [])"
proof -
  have a: "find_best_match \<lparr>qa_data = store_py [eva_no_answer], openai_client = None\<rparr>
       ''What does EVA do?'' lit_0_5 = Inr (PStr [], 1)"
    using find_best_match_typed[of "1 / 2" "[eva_no_answer]" None "''What does EVA do?''"]
    by (simp add: lit_0_5_eq eva_no_answer_best)
  have b: "get_llm_response (\<lambda>r. Raises) \<lparr>qa_data = store_py [eva_no_answer], openai_client = None\<rparr>
       ''What does EVA do?'' None = Inr (PStr need_api_key_message)"
    by (simp add: get_llm_response_no_client eva_no_answer_best)
  have c: "need_api_key_message \<noteq> []"
    by (simp add: need_api_key_message_def)
  show ?thesis using a b c by simp
qed

section \<open>A best match has a context\<close>

lemma find_best_match_loop_found:
  "find_best_match_loop u es (bm, bs) = Inr (a, s) \<Longrightarrow>
   (a, s) = (bm, bs) \<or> (\<exists>qa\<in>set es. \<exists>q. score_entry u qa = Inr (q, a, s))"
proof (induction es arbitrary: bm bs)
  case Nil
  then show ?case by simp
next
  case (Cons qa es)
  from Cons.prems obtain q a' ts where
    se: "score_entry u qa = Inr (q, a', ts)"
    and rest: "find_best_match_loop u es
                 (if bs < ts then (a', ts) else (bm, bs)) = Inr (a, s)"
    by (auto split: sum.splits)
  show ?case
  proof (cases "bs < ts")
    case True
    with rest have "find_best_match_loop u es (a', ts) = Inr (a, s)" by simp
    from Cons.IH[OF this] se show ?thesis by auto
  next
    case False
    with rest have "find_best_match_loop u es (bm, bs) = Inr (a, s)" by simp
    from Cons.IH[OF this] show ?thesis by auto
  qed
qed

lemma matches_loop_keeps:
  "find_best_match_loop u es st = Inr r \<Longrightarrow>
   \<exists>ms. matches_loop u es acc = Inr (acc @ ms) \<and>
        (\<forall>qa\<in>set es. \<forall>q a s. score_entry u qa = Inr (q, a, s) \<longrightarrow> lit_0_3 < s \<longrightarrow>
           (q, a, s) \<in> set ms)"
proof (induction es arbitrary: st acc)
  case Nil
  then show ?case by simp
next
  case (Cons qa es)
  obtain bm bs where st: "st = (bm, bs)" by (cases st)
  from Cons.prems obtain q a ts where
    se: "score_entry u qa = Inr (q, a, ts)"
    and rest: "find_best_match_loop u es
                 (if bs < ts then (a, ts) else (bm, bs)) = Inr r"
    unfolding st by (auto split: sum.splits)
  define acc' where "acc' = (if lit_0_3 < ts then acc @ [(q, a, ts)] else acc)"
  from Cons.IH[OF rest, of acc'] obtain ms where
    ms: "matches_loop u es acc' = Inr (acc' @ ms)"
    and all: "\<forall>qa\<in>set es. \<forall>q a s. score_entry u qa = Inr (q, a, s) \<longrightarrow> lit_0_3 < s \<longrightarrow>
                (q, a, s) \<in> set ms"
    by blast
  define ms' where "ms' = (if lit_0_3 < ts then (q, a, ts) # ms else ms)"
  have "matches_loop u (qa # es) acc = Inr (acc @ ms')"
    using se ms by (simp add: acc'_def ms'_def)
  moreover have "\<forall>qa'\<in>set (qa # es). \<forall>q a s. score_entry u qa' = Inr (q, a, s) \<longrightarrow>
      lit_0_3 < s \<longrightarrow> (q, a, s) \<in> set ms'"
    using se all by (auto simp: ms'_def)
  ultimately show ?case by blast
qed

lemma sort_reverse_Nil: "sort_reverse ms = [] \<longleftrightarrow> ms = []"
proof -
  have "length (sort_reverse ms) = length ms" by (simp add: sort_reverse_def)
  then show ?thesis by (metis length_0_conv)
qed

lemma best_match_has_context:
  assumes "find_best_match self query lit_0_5 = Inr (a, s)" and "a \<noteq> PNone"
  shows "\<exists>c. get_relevant_context fmt self query = Inr (Some c)"
proof -
  from assms have tr: "truthy (qa_data self)"
    by (auto simp: find_best_match_def split: if_splits)
  from assms tr obtain es where es: "py_iter (qa_data self) = Inr es"
    by (auto simp: find_best_match_def split: sum.splits)
  from assms tr es obtain bm bs where
    loop: "find_best_match_loop (lower query) es (PNone, 0) = Inr (bm, bs)"
    by (auto simp: find_best_match_def split: sum.splits)
  from assms tr es loop have thr: "lit_0_5 \<le> bs" and eq: "(a, s) = (bm, bs)"
    by (auto simp: find_best_match_def split: if_splits)
  from find_best_match_loop_found[OF loop] eq assms(2)
  obtain qa q where qa: "qa \<in> set es" "score_entry (lower query) qa = Inr (q, a, s)"
    by auto
  have big: "lit_0_3 < s"
    using thr eq lit_0_3_less_0_5 by simp
  from matches_loop_keeps[OF loop, of "[]"] obtain ms where
    ms: "matches_loop (lower query) es [] = Inr ms"
    and all: "\<forall>qa\<in>set es. \<forall>q a s. score_entry (lower query) qa = Inr (q, a, s) \<longrightarrow>
                lit_0_3 < s \<longrightarrow> (q, a, s) \<in> set ms"
    by auto
  from all qa big have "(q, a, s) \<in> set ms" by blast
  then have "ms \<noteq> []" by auto
  then have "take 3 (sort_reverse ms) \<noteq> []"
    by (simp add: sort_reverse_Nil)
  then show ?thesis
    using tr es ms by (simp add: get_relevant_context_def Let_def)
qed

text \<open>
  C9. For every query and every content of the store, also one that is not a store of the
  spec: when \<open>_find_best_match\<close> at threshold \<open>0.5\<close> returns an answer (a value other than
  \<open>None\<close>), \<open>_get_relevant_context\<close> returns a context, since both loops compute the same
  scores and \<open>0.3 < 0.5\<close>. So with no generation service configured and a query that is not
  blank, a response whose answer came from the knowledge store has source \<open>ai_agent\<close> and
  confidence \<open>1.0\<close>.
\<close>

theorem best_match_implies_context:
  assumes "find_best_match self query lit_0_5 = Inr (a, s)" and "a \<noteq> PNone"
  shows "(\<exists>c. get_relevant_context fmt self query = Inr (Some c)) \<and>
         (openai_client self = None \<and> \<not> blank query \<and> truthy a \<longrightarrow>
            get_response fmt create self query =
              Inr \<lparr>answer = a, source = ''ai_agent'', confidence = 1\<rparr>)"
proof -
  from best_match_has_context[OF assms, of fmt] obtain c where
    c: "get_relevant_context fmt self query = Inr (Some c)"
    by blast
  have "get_response fmt create self query =
          Inr \<lparr>answer = a, source = ''ai_agent'', confidence = 1\<rparr>"
    if nc: "openai_client self = None" and nb: "\<not> blank query" and tr: "truthy a"
  proof -
    have l: "get_llm_response create self query (Some c) = Inr a"
      using nc tr assms(1) by (simp add: get_llm_response_def)
    from get_response_shape[OF nb c l] show ?thesis by simp
  qed
  then show ?thesis using c by blast
qed

theorem best_match_implies_context_witness:
  "find_best_match \<lparr>qa_data = store_py [eva_entry], openai_client = None\<rparr>
       ''What does EVA do?'' lit_0_5 =
     Inr (PStr ''EVA is our Eligibility Verification Agent'', 1) \<and>
   PStr ''EVA is our Eligibility Verification Agent'' \<noteq> PNone \<and>
   (\<exists>c. get_relevant_context (\<lambda>v. []) \<lparr>qa_data = store_py [eva_entry], openai_client = None\<rparr>
          ''What does EVA do?'' = Inr (Some c)) \<and>
   get_response (\<lambda>v. []) (\<lambda>r. Raises) \<lparr>qa_data = store_py [eva_entry], openai_client = None\<rparr>
       ''What does EVA do?'' =
     Inr \<lparr>answer = PStr ''EVA is our Eligibility Verification Agent'', source = ''ai_agent'',
          confidence = 1\<rparr>"
proof -
  have a: "find_best_match \<lparr>qa_data = store_py [eva_entry], openai_client = None\<rparr>
       ''What does EVA do?'' lit_0_5 =
     Inr (PStr ''EVA is our Eligibility Verification Agent'', 1)"
    using find_best_match_typed[of "1 / 2" "[eva_entry]" None "''What does EVA do?''"]
    by (simp add: lit_0_5_eq eva_best)
  have b: "PStr ''EVA is our Eligibility Verification Agent'' \<noteq> PNone" by simp
  show ?thesis
    using a b eva_not_blank
      best_match_implies_context [OF a b, of "\<lambda>v. []" "\<lambda>r. Raises"]
    by simp
qed

section \<open>Stores that are not well formed\<close>





























end
